theory Spec2Isabelle
  imports Complex_Main "HOL-Library.Sublist"
begin

section \<open>CivicLens: complaint triage, escalation, assignment and duplicate linking\<close>

text \<open>
  The development embeds the service layer of the CivicLens backend
  (\<^verbatim>\<open>app/services/ai_service.py\<close>, \<^verbatim>\<open>app/services/complaint_service.py\<close> and the
  hotspot endpoint of \<^verbatim>\<open>app/api/analytics.py\<close>).

  Conventions of the embedding:
  \<^item> A Python \<^verbatim>\<open>float\<close> is a \<^typ>\<open>real\<close>: the decimal literals of the source
    (\<^verbatim>\<open>0.1\<close>, \<^verbatim>\<open>0.3\<close>, \<^verbatim>\<open>0.8\<close>, ...) are the exact decimals, and binary rounding
    error is not modelled.
  \<^item> A Python \<^verbatim>\<open>str\<close> is a \<^typ>\<open>string\<close>; \<^verbatim>\<open>kw in text\<close> on strings is the
    contiguous-sublist test \<^const>\<open>sublist\<close>.
  \<^item> A \<^verbatim>\<open>datetime\<close> is an \<^typ>\<open>int\<close>, the microseconds since the epoch.
  \<^item> The tables of the database are lists of rows in the order in which an unordered
    query returns them; an ORM object is the row with its primary key.
\<close>

subsection \<open>Severity score to priority (\<^verbatim>\<open>AIService.get_priority_from_score\<close>)\<close>

definition get_priority_from_score :: "real \<Rightarrow> string" where
  "get_priority_from_score severity_score =
     (if severity_score \<ge> 0.8 then ''critical''
      else if severity_score \<ge> 0.6 then ''high''
      else if severity_score \<ge> 0.4 then ''medium''
      else ''low'')"

text \<open>
  The order of the tiers, used to state monotonicity: low, medium, high, critical.
  Any other string has rank 0; \<^const>\<open>get_priority_from_score\<close> never returns one.
\<close>

definition tier_rank :: "string \<Rightarrow> nat" where
  "tier_rank p =
     (if p = ''critical'' then 3 else if p = ''high'' then 2
      else if p = ''medium'' then 1 else 0)"

subsection \<open>Text primitives\<close>

text \<open>
  \<^verbatim>\<open>str.lower()\<close> on the letters \<^verbatim>\<open>A\<close> to \<^verbatim>\<open>Z\<close>; every other character of the
  8-bit alphabet is left as it is.
\<close>

definition lower_char :: "char \<Rightarrow> char" where
  "lower_char c =
     (case map_of (zip ''ABCDEFGHIJKLMNOPQRSTUVWXYZ'' ''abcdefghijklmnopqrstuvwxyz'') c of
        Some l \<Rightarrow> l
      | None \<Rightarrow> c)"

definition lower :: "string \<Rightarrow> string" where
  "lower text = map lower_char text"

text \<open>\<^verbatim>\<open>sum(1 for kw in keywords if kw in text_lower)\<close>\<close>

definition keyword_hits :: "string list \<Rightarrow> string \<Rightarrow> nat" where
  "keyword_hits keywords text_lower = length (filter (\<lambda>kw. sublist kw text_lower) keywords)"

subsection \<open>Keyword tables (\<^verbatim>\<open>AIService.__init__\<close>)\<close>

definition urgency_critical :: "string list" where
  "urgency_critical =
     [''emergency'', ''urgent'', ''danger'', ''life threatening'', ''fire'',
      ''accident'', ''flood'', ''collapsed'', ''explosion'', ''gas leak'',
      ''electrocution'', ''drowning'', ''death'', ''injured'']"

definition urgency_high :: "string list" where
  "urgency_high =
     [''immediate'', ''severe'', ''major'', ''broken'', ''blocked'',
      ''overflow'', ''leakage'', ''exposure'', ''hazard'', ''risk'',
      ''children'', ''elderly'', ''disabled'', ''hospital'', ''school'']"

definition urgency_medium :: "string list" where
  "urgency_medium =
     [''damaged'', ''poor'', ''problem'', ''issue'', ''concern'',
      ''inconvenience'', ''delay'', ''irregular'', ''complaint'']"

definition urgency_low :: "string list" where
  "urgency_low =
     [''minor'', ''small'', ''slight'', ''cosmetic'', ''suggestion'',
      ''improvement'', ''future'', ''eventually'']"

text \<open>The dictionary \<^verbatim>\<open>category_keywords\<close>, in its insertion order.\<close>

definition category_keywords :: "(string \<times> string list) list" where
  "category_keywords =
     [(''roads'',
        [''road'', ''pothole'', ''street'', ''highway'', ''pavement'', ''sidewalk'',
         ''traffic'', ''signal'', ''footpath'', ''crossing'', ''bridge'', ''asphalt'']),
      (''water'',
        [''water'', ''pipeline'', ''tap'', ''supply'', ''drinking'', ''tank'',
         ''bore'', ''well'', ''pump'', ''contaminated'', ''dirty water'']),
      (''sanitation'',
        [''garbage'', ''waste'', ''sewage'', ''drain'', ''toilet'', ''trash'',
         ''cleaning'', ''dustbin'', ''sweeping'', ''stench'', ''smell'', ''hygiene'']),
      (''safety'',
        [''crime'', ''theft'', ''robbery'', ''harassment'', ''police'', ''security'',
         ''unsafe'', ''dark'', ''lighting'', ''cctv'', ''patrol'', ''violence'']),
      (''electricity'',
        [''power'', ''electric'', ''outage'', ''blackout'', ''transformer'',
         ''wire'', ''cable'', ''meter'', ''voltage'', ''short circuit'', ''pole'']),
      (''public_transport'',
        [''bus'', ''metro'', ''train'', ''transport'', ''station'', ''stop'',
         ''schedule'', ''route'', ''ticket'', ''fare'', ''overcrowded'']),
      (''environment'',
        [''tree'', ''park'', ''pollution'', ''noise'', ''air quality'', ''green'',
         ''garden'', ''plant'', ''animal'', ''stray'', ''mosquito'', ''pest''])]"

definition categories :: "string list" where
  "categories =
     [''roads'', ''water'', ''sanitation'', ''safety'', ''electricity'',
      ''public_transport'', ''environment'', ''other'']"

subsection \<open>Category classification (\<^verbatim>\<open>AIService.classify_category\<close>)\<close>

text \<open>
  The dictionary \<^verbatim>\<open>category_scores\<close>: one entry per category with a positive score, in
  the order of the keyword table.
\<close>

definition category_scores :: "string \<Rightarrow> (string \<times> nat) list" where
  "category_scores text_lower =
     filter (\<lambda>(category, score). score > 0)
       (map (\<lambda>(category, keywords). (category, keyword_hits keywords text_lower))
          category_keywords)"

text \<open>
  \<^verbatim>\<open>max(d, key=d.get)\<close> over the entries of a dictionary: the running best entry is
  replaced only by a strictly larger one, so the first maximal entry wins.
\<close>

fun max_by_value :: "('k \<times> nat) \<Rightarrow> ('k \<times> nat) list \<Rightarrow> ('k \<times> nat)" where
  "max_by_value best [] = best"
| "max_by_value best (x # xs) = max_by_value (if snd x > snd best then x else best) xs"

definition classify_category :: "string \<Rightarrow> string \<times> real" where
  "classify_category text =
     (let text_lower = lower text;
          scores = category_scores text_lower
      in case scores of
           [] \<Rightarrow> (''other'', 0.3)
         | first # others \<Rightarrow>
             (let (best_category, max_score) = max_by_value first others;
                  total_score = sum_list (map snd scores);
                  confidence = (if total_score > 0 then real max_score / real total_score
                                else 0.5)
              in (best_category, min confidence 0.9)))"

subsection \<open>Keyword urgency (\<^verbatim>\<open>AIService.calculate_keyword_urgency\<close>)\<close>

definition calculate_keyword_urgency :: "string \<Rightarrow> real" where
  "calculate_keyword_urgency text =
     (let text_lower = lower text in
      if list_ex (\<lambda>keyword. sublist keyword text_lower) urgency_critical then 1.0
      else
        (let critical_count = keyword_hits urgency_critical text_lower;
             high_count = keyword_hits urgency_high text_lower;
             medium_count = keyword_hits urgency_medium text_lower;
             low_count = keyword_hits urgency_low text_lower;
             score = real critical_count * 1.0 + real high_count * 0.7
                     + real medium_count * 0.4 + real low_count * 0.1;
             total = critical_count + high_count + medium_count + low_count
         in if total > 0 then min (score / real total) 1.0 else 0.3))"

text \<open>
  The reference definition of the urgency score, following the specification: lower-case
  the text; 1.0 as soon as a critical keyword occurs; otherwise the sum of the per-tier
  hit counts weighted by 1.0, 0.7, 0.4 and 0.1, divided by the total hit count, and 0.30
  when nothing is hit.
\<close>

definition urgency_reference :: "string \<Rightarrow> real" where
  "urgency_reference text =
     (let t = lower text;
          hits = map (\<lambda>tier. keyword_hits tier t)
                   [urgency_critical, urgency_high, urgency_medium, urgency_low];
          tier_weights = [1.0, 0.7, 0.4, 0.1]
      in if list_ex (\<lambda>kw. sublist kw t) urgency_critical then 1.0
         else if sum_list hits = 0 then 0.30
         else sum_list (map (\<lambda>(n, w). real n * w) (zip hits tier_weights))
                / real (sum_list hits))"

subsection \<open>Severity score (\<^verbatim>\<open>AIService.calculate_severity_score\<close>)\<close>

definition calculate_location_importance :: "real \<Rightarrow> real \<Rightarrow> real" where
  "calculate_location_importance latitude longitude = 0.5"

definition get_nearby_complaint_factor :: "real \<Rightarrow> real \<Rightarrow> string \<Rightarrow> real" where
  "get_nearby_complaint_factor latitude longitude category = 0.3"

record weights =
  keyword_urgency :: real
  nearby_complaints :: real
  time_unresolved :: real
  location_importance :: real

definition default_weights :: weights where
  "default_weights =
     \<lparr>keyword_urgency = 0.3, nearby_complaints = 0.2,
      time_unresolved = 0.2, location_importance = 0.3\<rparr>"

text \<open>
  Python's \<^verbatim>\<open>round(x)\<close> goes to the nearest integer and, half way between two, to the
  even one; \<^verbatim>\<open>round(x, n)\<close> does the same at the \<open>n\<close>-th decimal.
\<close>

definition py_round :: "real \<Rightarrow> int" where
  "py_round x =
     (let f = \<lfloor>x\<rfloor>; d = x - of_int f
      in if d < 1/2 then f else if d > 1/2 then f + 1 else if even f then f else f + 1)"

definition round_ndigits :: "real \<Rightarrow> nat \<Rightarrow> real" where
  "round_ndigits x n = of_int (py_round (x * 10 ^ n)) / 10 ^ n"

text \<open>
  The configuration entry \<^verbatim>\<open>SEVERITY_WEIGHTS\<close> is the first argument: \<open>None\<close> when the
  entry is absent or there is no application context (the \<^verbatim>\<open>RuntimeError\<close> branch), in
  which case the built-in weights apply.
\<close>

definition calculate_severity_score ::
  "weights option \<Rightarrow> string \<Rightarrow> string \<Rightarrow> real \<Rightarrow> real \<Rightarrow> real \<Rightarrow> real" where
  "calculate_severity_score config text category latitude longitude time_unresolved_hours =
     (let w = (case config of Some cw \<Rightarrow> cw | None \<Rightarrow> default_weights);
          keyword_score = calculate_keyword_urgency text;
          location_score = calculate_location_importance latitude longitude;
          nearby_score = get_nearby_complaint_factor latitude longitude category;
          time_factor = min (time_unresolved_hours / 168) 1.0;
          severity = keyword_urgency w * keyword_score
                     + nearby_complaints w * nearby_score
                     + time_unresolved w * time_factor
                     + location_importance w * location_score
      in round_ndigits (min severity 1.0) 3)"

subsection \<open>Submission pipeline (\<^verbatim>\<open>AIService.process_complaint\<close>)\<close>

record ai_result =
  res_category :: string
  res_ai_category :: string
  res_confidence :: real
  res_severity_score :: real
  res_priority :: string

definition process_complaint ::
  "weights option \<Rightarrow> string \<Rightarrow> string option \<Rightarrow> real \<Rightarrow> real \<Rightarrow> ai_result" where
  "process_complaint config text category latitude longitude =
     (let (ai_category, confidence) = classify_category text;
          final_category = (case category of
                              Some c \<Rightarrow> if c \<in> set categories then c else ai_category
                            | None \<Rightarrow> ai_category);
          severity_score = calculate_severity_score config text final_category
                             latitude longitude 0;
          priority = get_priority_from_score severity_score
      in \<lparr>res_category = final_category, res_ai_category = ai_category,
          res_confidence = round_ndigits confidence 3,
          res_severity_score = severity_score, res_priority = priority\<rparr>)"

subsection \<open>Rows of the database (\<^verbatim>\<open>app/models/models.py\<close>)\<close>

text \<open>
  The columns of \<^verbatim>\<open>Complaint\<close> and \<^verbatim>\<open>User\<close> that the services read or write.
  \<^verbatim>\<open>created_at\<close>, \<^verbatim>\<open>escalation_level\<close>, \<^verbatim>\<open>status\<close> and \<^verbatim>\<open>priority\<close> have column
  defaults and are set on every row the application creates, so they carry a value; the
  foreign keys, \<^verbatim>\<open>department\<close> and \<^verbatim>\<open>escalated_at\<close> may be \<^verbatim>\<open>None\<close>.

  \<^verbatim>\<open>severity_score\<close> is a nullable column with a default too. Its type is the parameter
  of the record: a \<open>complaint\<close> is a row whose score is set, as on every row the
  submission endpoint and the seed script create, and a \<open>nullable_complaint\<close> is a row
  whose score may be \<^verbatim>\<open>None\<close>.
\<close>

record 's complaint_row =
  id_c :: nat
  category :: string
  latitude :: real
  longitude :: real
  status :: string
  priority :: string
  severity_score :: 's
  officer_id :: "nat option"
  department :: "string option"
  created_at :: int
  escalated_at :: "int option"
  is_duplicate :: bool
  duplicate_of_id :: "nat option"
  escalation_level :: int

type_synonym complaint = "real complaint_row"

type_synonym nullable_complaint = "real option complaint_row"

record user =
  id_u :: nat
  role :: string
  department_u :: "string option"
  is_active :: bool

text \<open>Writing through an ORM object: the row with that primary key is updated.\<close>

definition update_row ::
  "nat \<Rightarrow> ('s complaint_row \<Rightarrow> 's complaint_row) \<Rightarrow> 's complaint_row list
     \<Rightarrow> 's complaint_row list" where
  "update_row i f rows = map (\<lambda>c. if id_c c = i then f c else c) rows"

definition get_row :: "nat \<Rightarrow> 's complaint_row list \<Rightarrow> 's complaint_row option" where
  "get_row i rows = find (\<lambda>c. id_c c = i) rows"

subsection \<open>Escalation (\<^verbatim>\<open>ComplaintService.check_escalation\<close>, \<^verbatim>\<open>run_escalation_check\<close>)\<close>

definition thresholds :: "string \<rightharpoonup> nat" where
  "thresholds =
     [''critical'' \<mapsto> 4, ''high'' \<mapsto> 24, ''medium'' \<mapsto> 72, ''low'' \<mapsto> 168]"

text \<open>
  \<open>now\<close> is the value of \<^verbatim>\<open>datetime.utcnow()\<close>; the two readings of the clock inside one
  call are taken to be the same instant. A microsecond count becomes hours as
  \<^verbatim>\<open>total_seconds() / 3600\<close> does.
\<close>

definition hours_between :: "int \<Rightarrow> int \<Rightarrow> real" where
  "hours_between now created = real_of_int (now - created) / 1000000 / 3600"

definition check_escalation :: "int \<Rightarrow> complaint \<Rightarrow> bool \<times> complaint" where
  "check_escalation now complaint =
     (if status complaint \<in> set [''resolved'', ''closed''] then (False, complaint)
      else
        (let threshold_hours = (case thresholds (priority complaint) of
                                  Some h \<Rightarrow> h | None \<Rightarrow> 72);
             hours_pending = hours_between now (created_at complaint)
         in if hours_pending > real threshold_hours \<and> escalation_level complaint = 0
            then (True, complaint\<lparr>escalation_level := 1, escalated_at := Some now\<rparr>)
            else if hours_pending > real (threshold_hours * 2)
                    \<and> escalation_level complaint = 1
            then (True, complaint\<lparr>escalation_level := 2\<rparr>)
            else (False, complaint)))"

text \<open>
  The driver visits the rows whose status is pending or in progress, in table order, and
  counts the calls that returned \<^verbatim>\<open>True\<close>; the other rows are not touched. The result is
  the count and the table after the commit.
\<close>

fun run_escalation_check :: "int \<Rightarrow> complaint list \<Rightarrow> nat \<times> complaint list" where
  "run_escalation_check now [] = (0, [])"
| "run_escalation_check now (complaint # rest) =
     (if status complaint \<in> set [''pending'', ''in_progress''] then
        (let (escalated, complaint') = check_escalation now complaint;
             (escalated_count, rest') = run_escalation_check now rest
         in ((if escalated then 1 else 0) + escalated_count, complaint' # rest'))
      else
        (let (escalated_count, rest') = run_escalation_check now rest
         in (escalated_count, complaint # rest')))"

subsection \<open>Assignment (\<^verbatim>\<open>ComplaintService.auto_assign_complaint\<close>)\<close>

text \<open>
  \<^verbatim>\<open>Complaint.query.filter(officer_id == officer.id, status.in_([...])).count()\<close>
\<close>

definition pending_count :: "complaint list \<Rightarrow> nat \<Rightarrow> nat" where
  "pending_count rows oid =
     length (filter (\<lambda>c. officer_id c = Some oid
                          \<and> status c \<in> set [''pending'', ''in_progress'']) rows)"

text \<open>
  The selection loop. \<open>min_load\<close> is \<open>None\<close> for \<^verbatim>\<open>float('inf')\<close>, below which every
  count lies.
\<close>

fun select_loop ::
  "complaint list \<Rightarrow> user list \<Rightarrow> nat option \<Rightarrow> user option \<Rightarrow> user option" where
  "select_loop rows [] min_load selected_officer = selected_officer"
| "select_loop rows (officer # officers) min_load selected_officer =
     (let n = pending_count rows (id_u officer)
      in if (case min_load of None \<Rightarrow> True | Some m \<Rightarrow> n < m)
         then select_loop rows officers (Some n) (Some officer)
         else select_loop rows officers min_load selected_officer)"

definition department_officers :: "user list \<Rightarrow> string \<Rightarrow> user list" where
  "department_officers users dept =
     filter (\<lambda>u. role u = ''officer'' \<and> department_u u = Some dept \<and> is_active u) users"

definition auto_assign_complaint ::
  "user list \<Rightarrow> complaint list \<Rightarrow> complaint \<Rightarrow> user option \<times> complaint" where
  "auto_assign_complaint users rows complaint =
     (case department complaint of
        None \<Rightarrow> (None, complaint)
      | Some dept \<Rightarrow>
          if dept = [] then (None, complaint)
          else
            (let officers = department_officers users dept
             in if officers = [] then (None, complaint)
                else (case select_loop rows officers None None of
                        Some selected_officer \<Rightarrow>
                          (Some selected_officer,
                           complaint\<lparr>officer_id := Some (id_u selected_officer)\<rparr>)
                      | None \<Rightarrow> (None, complaint))))"

subsection \<open>Duplicate linking (\<^verbatim>\<open>ComplaintService.mark_as_duplicate\<close>)\<close>

text \<open>\<^verbatim>\<open>Complaint.query.filter_by(duplicate_of_id=...).count()\<close>\<close>

definition count_duplicates_of :: "nat \<Rightarrow> 's complaint_row list \<Rightarrow> nat" where
  "count_duplicates_of i rows = length (filter (\<lambda>c. duplicate_of_id c = Some i) rows)"

text \<open>
  The two arguments are the primary keys of the two ORM objects, rows of the table. The
  function first writes the link on the duplicate and then counts; whether the count
  query sees that pending write is decided by the session, not by the service: with
  \<open>autoflush\<close> (the default of the session that \<^verbatim>\<open>SQLAlchemy()\<close> creates in
  \<^verbatim>\<open>app/__init__.py\<close>) the write is flushed before the query runs, without it the query
  reads the table as it was.

  The linker reads the score of a row it has not created and adds to it without a test:
  on a score that is \<^verbatim>\<open>None\<close> the addition \<^verbatim>\<open>severity_score + boost\<close> raises
  \<^verbatim>\<open>TypeError\<close>. So the rows are nullable here, and the result is either that error or
  the returned flag with the table after the writes of the call. For a key that is not in
  the table there is no row to write to.
\<close>

datatype error = TypeError

definition mark_as_duplicate ::
  "bool \<Rightarrow> nullable_complaint list \<Rightarrow> nat \<Rightarrow> nat
     \<Rightarrow> error + bool \<times> nullable_complaint list" where
  "mark_as_duplicate autoflush rows complaint original_complaint =
     (if complaint = original_complaint then Inr (False, rows)
      else
        (let linked = update_row complaint
                        (\<lambda>c. c\<lparr>is_duplicate := True,
                                duplicate_of_id := Some original_complaint\<rparr>) rows;
             duplicate_count = count_duplicates_of original_complaint
                                 (if autoflush then linked else rows)
         in if duplicate_count > 0 then
              (let boost = min (real duplicate_count * 0.1) 0.3
               in case get_row original_complaint linked of
                    None \<Rightarrow> Inr (True, linked)
                  | Some original \<Rightarrow>
                      (case severity_score original of
                         None \<Rightarrow> Inl TypeError
                       | Some score \<Rightarrow>
                           Inr (True,
                                update_row original_complaint
                                  (\<lambda>c. c\<lparr>severity_score := Some (min (score + boost) 1.0)\<rparr>)
                                  linked)))
            else Inr (True, linked)))"

text \<open>
  Successive link calls onto one original, each committed before the next; an error ends
  the sequence.
\<close>

fun link_all ::
  "bool \<Rightarrow> nullable_complaint list \<Rightarrow> nat list \<Rightarrow> nat \<Rightarrow> error + nullable_complaint list" where
  "link_all autoflush rows [] original = Inr rows"
| "link_all autoflush rows (d # ds) original =
     (case mark_as_duplicate autoflush rows d original of
        Inl e \<Rightarrow> Inl e
      | Inr (flag, rows') \<Rightarrow> link_all autoflush rows' ds original)"

subsection \<open>Hotspots (\<^verbatim>\<open>get_hotspots\<close> in \<^verbatim>\<open>app/api/analytics.py\<close>)\<close>

definition grid_size :: real where
  "grid_size = 0.01"

text \<open>
  The cell of a complaint. The source keys the dictionary by the text
  \<^verbatim>\<open>f"{grid_lat},{grid_lng}"\<close>, which determines the two numbers and is determined by
  them, so the pair itself is the key here.
\<close>

definition grid_key :: "complaint \<Rightarrow> real \<times> real" where
  "grid_key c =
     (let grid_lat = of_int (py_round (latitude c / grid_size)) * grid_size;
          grid_lng = of_int (py_round (longitude c / grid_size)) * grid_size
      in (grid_lat, grid_lng))"

record cluster =
  lat :: real
  lng :: real
  count :: nat
  avg_severity :: real
  cl_categories :: "(string \<times> nat) list"

record hotspot =
  h_lat :: real
  h_lng :: real
  h_count :: nat
  h_avg_severity :: real
  h_top_category :: "string option"

text \<open>\<^verbatim>\<open>d[k] = d.get(k, 0) + 1\<close> on a dictionary in insertion order.\<close>

fun increment :: "'k \<Rightarrow> ('k \<times> nat) list \<Rightarrow> ('k \<times> nat) list" where
  "increment k [] = [(k, 1)]"
| "increment k ((k', n) # rest) =
     (if k' = k then (k', n + 1) # rest else (k', n) # increment k rest)"

definition accumulate :: "complaint \<Rightarrow> cluster \<Rightarrow> cluster" where
  "accumulate c cl =
     cl\<lparr>count := count cl + 1,
        avg_severity := avg_severity cl + severity_score c,
        cl_categories := increment (category c) (cl_categories cl)\<rparr>"

definition new_cluster :: "real \<times> real \<Rightarrow> cluster" where
  "new_cluster key =
     \<lparr>lat = fst key, lng = snd key, count = 0, avg_severity = 0, cl_categories = []\<rparr>"

text \<open>One turn of the loop over the complaints: a new cell goes to the end.\<close>

fun add_to_clusters ::
  "complaint \<Rightarrow> ((real \<times> real) \<times> cluster) list \<Rightarrow> ((real \<times> real) \<times> cluster) list" where
  "add_to_clusters c [] = [(grid_key c, accumulate c (new_cluster (grid_key c)))]"
| "add_to_clusters c ((key, cl) # rest) =
     (if key = grid_key c then (key, accumulate c cl) # rest
      else (key, cl) # add_to_clusters c rest)"

definition build_clusters :: "complaint list \<Rightarrow> ((real \<times> real) \<times> cluster) list" where
  "build_clusters complaints = foldl (\<lambda>clusters c. add_to_clusters c clusters) [] complaints"

definition finalize :: "cluster \<Rightarrow> hotspot" where
  "finalize cl =
     \<lparr>h_lat = lat cl, h_lng = lng cl, h_count = count cl,
      h_avg_severity = round_ndigits (avg_severity cl / real (count cl)) 2,
      h_top_category = (case cl_categories cl of
                          [] \<Rightarrow> None
                        | first # others \<Rightarrow> Some (fst (max_by_value first others)))\<rparr>"

text \<open>
  The clusterer proper: the cells in insertion order, finalised, then sorted by count
  in descending order. \<^verbatim>\<open>list.sort(reverse=True)\<close> is stable, as \<^const>\<open>sort_key\<close> is.
\<close>

definition all_hotspots :: "complaint list \<Rightarrow> hotspot list" where
  "all_hotspots complaints =
     sort_key (\<lambda>h. - int (h_count h)) (map (\<lambda>(key, cl). finalize cl) (build_clusters complaints))"

text \<open>
  The endpoint: the complaints created in the last \<open>days\<close> days, of the given category
  when the request names one, are clustered, and the first 50 hotspots are returned.
\<close>

definition hotspot_query :: "int \<Rightarrow> int \<Rightarrow> string option \<Rightarrow> complaint list \<Rightarrow> complaint list" where
  "hotspot_query now days cat rows =
     (let start_date = now - days * 86400000000;
          recent = filter (\<lambda>c. created_at c \<ge> start_date) rows
      in case cat of
           None \<Rightarrow> recent
         | Some k \<Rightarrow> if k = [] then recent else filter (\<lambda>c. category c = k) recent)"

definition get_hotspots :: "int \<Rightarrow> int \<Rightarrow> string option \<Rightarrow> complaint list \<Rightarrow> hotspot list" where
  "get_hotspots now days cat rows = take 50 (all_hotspots (hotspot_query now days cat rows))"

subsection \<open>Auxiliary definitions for the statements\<close>

text \<open>
  The escalation thresholds as the specification lists them: 4, 24, 72 and 168 hours for
  critical, high, medium and low, and 72 hours for any other priority.
\<close>

definition threshold_spec :: "string \<Rightarrow> nat" where
  "threshold_spec p =
     (if p = ''critical'' then 4 else if p = ''high'' then 24
      else if p = ''medium'' then 72 else if p = ''low'' then 168 else 72)"

text \<open>
  The average of the tier weights 0.7, 0.4 and 0.1 over \<open>h\<close> high, \<open>m\<close> medium and \<open>l\<close>
  low keyword hits.
\<close>

definition tier_average :: "nat \<Rightarrow> nat \<Rightarrow> nat \<Rightarrow> real" where
  "tier_average h m l =
     (real h * (7 / 10) + real m * (4 / 10) + real l * (1 / 10)) / real (h + m + l)"

text \<open>A complaint as the submission endpoint stores it, for the concrete instances.\<close>

definition sample_complaint :: complaint where
  "sample_complaint =
     \<lparr>id_c = 1, category = ''roads'', latitude = 28.6139, longitude = 77.209,
      status = ''pending'', priority = ''critical'', severity_score = 0.5,
      officer_id = None, department = Some ''Public Works Department'',
      created_at = 0, escalated_at = None, is_duplicate = False,
      duplicate_of_id = None, escalation_level = 0\<rparr>"

text \<open>
  The keyword score of one category on a lower-cased text (0 for a name that is not a
  category of the table), and the sum of the scores of all categories.
\<close>

definition category_count :: "string \<Rightarrow> string \<Rightarrow> nat" where
  "category_count text_lower c =
     (case map_of category_keywords c of
        Some keywords \<Rightarrow> keyword_hits keywords text_lower
      | None \<Rightarrow> 0)"

definition total_count :: "string \<Rightarrow> nat" where
  "total_count text_lower =
     sum_list (map (\<lambda>(c, keywords). keyword_hits keywords text_lower) category_keywords)"

text \<open>
  Three active officers of one department with 3, 1 and 1 open assignments, among an
  inactive officer, an officer of another department and settled complaints.
\<close>

definition sample_officer :: "nat \<Rightarrow> user" where
  "sample_officer i =
     \<lparr>id_u = i, role = ''officer'', department_u = Some ''Sanitation Department'',
      is_active = True\<rparr>"

definition sample_users :: "user list" where
  "sample_users =
     [sample_officer 10,
      (sample_officer 13)\<lparr>is_active := False\<rparr>,
      sample_officer 11,
      (sample_officer 14)\<lparr>department_u := Some ''Water Supply Department''\<rparr>,
      sample_officer 12]"

definition assigned :: "nat \<Rightarrow> nat \<Rightarrow> string \<Rightarrow> complaint" where
  "assigned i officer st = sample_complaint\<lparr>id_c := i, officer_id := Some officer, status := st\<rparr>"

definition sample_rows :: "complaint list" where
  "sample_rows =
     [assigned 1 10 ''pending'', assigned 2 11 ''pending'', assigned 3 10 ''in_progress'',
      assigned 4 12 ''in_progress'', assigned 5 10 ''pending'', assigned 6 11 ''resolved'',
      assigned 7 12 ''closed'', assigned 8 14 ''pending'']"

text \<open>The open-assignment count of a caseworker, as the selection loop computes it.\<close>

definition load :: "complaint list \<Rightarrow> user \<Rightarrow> nat" where
  "load rows u = pending_count rows (id_u u)"

text \<open>
  The rows the escalation driver selects; the complaints that are open, at level 0 and
  pending for more than twice their threshold; and what the driver does with one row of
  the table.
\<close>

definition is_open :: "complaint \<Rightarrow> bool" where
  "is_open c = (status c \<in> set [''pending'', ''in_progress''])"

definition jumps :: "int \<Rightarrow> complaint \<Rightarrow> bool" where
  "jumps now c =
     (is_open c \<and> escalation_level c = 0
      \<and> hours_between now (created_at c) > 2 * real (threshold_spec (priority c)))"

definition visit :: "int \<Rightarrow> complaint \<Rightarrow> bool \<times> complaint" where
  "visit now c = (if is_open c then check_escalation now c else (False, c))"

text \<open>
  The severity of an original after a link call whose count query returned \<open>k\<close>, and
  the write of the link on the duplicate.
\<close>

definition boosted :: "real \<Rightarrow> nat \<Rightarrow> real" where
  "boosted s k = (if k > 0 then min (s + min (real k * 0.1) 0.3) 1.0 else s)"

definition link :: "nat \<Rightarrow> 's complaint_row \<Rightarrow> 's complaint_row" where
  "link original c = c\<lparr>is_duplicate := True, duplicate_of_id := Some original\<rparr>"

text \<open>
  The score of the row \<open>i\<close> after a sequence of link calls: none when a call has raised,
  when the row is missing or when its score is \<^verbatim>\<open>None\<close>.
\<close>

definition final_score :: "nat \<Rightarrow> error + nullable_complaint list \<Rightarrow> real option" where
  "final_score i result =
     (case result of
        Inl e \<Rightarrow> None
      | Inr rows \<Rightarrow> (case get_row i rows of None \<Rightarrow> None | Some r \<Rightarrow> severity_score r))"

text \<open>
  Reports of severity 0.1 with the identifiers 1 to 5 and no links; a table in which
  the report 2 is already a duplicate of the report 1; and the same two tables with no
  score on the report 1.
\<close>

definition report :: "nat \<Rightarrow> nullable_complaint" where
  "report i =
     \<lparr>id_c = i, category = ''roads'', latitude = 28.6139, longitude = 77.209,
      status = ''pending'', priority = ''medium'', severity_score = Some 0.1,
      officer_id = None, department = Some ''Public Works Department'',
      created_at = 0, escalated_at = None, is_duplicate = False,
      duplicate_of_id = None, escalation_level = 0\<rparr>"

definition dup_rows :: "nullable_complaint list" where
  "dup_rows = [report 1, report 2, report 3, report 4, report 5]"

definition linked_rows :: "nullable_complaint list" where
  "linked_rows = [report 1, link 1 (report 2), report 3]"

definition unscored :: "nat \<Rightarrow> nullable_complaint" where
  "unscored i = (report i)\<lparr>severity_score := None\<rparr>"

text \<open>
  The cell a hotspot stands for and the complaints that fall into a cell; the category
  counts of a list of categories and the cluster of a cell's complaints, as the loop
  builds them one complaint after the other.
\<close>

definition hotspot_cell :: "hotspot \<Rightarrow> real \<times> real" where
  "hotspot_cell h = (h_lat h, h_lng h)"

definition cell_members :: "complaint list \<Rightarrow> real \<times> real \<Rightarrow> complaint list" where
  "cell_members complaints cell = filter (\<lambda>c. grid_key c = cell) complaints"

definition tally :: "'k list \<Rightarrow> ('k \<times> nat) list" where
  "tally xs = foldl (\<lambda>d x. increment x d) [] xs"

definition summary :: "real \<times> real \<Rightarrow> complaint list \<Rightarrow> cluster" where
  "summary key members = foldl (\<lambda>cl c. accumulate c cl) (new_cluster key) members"

text \<open>Two complaints some metres apart.\<close>

definition near_a :: complaint where
  "near_a = sample_complaint\<lparr>id_c := 1, latitude := 28.61390, longitude := 77.20899\<rparr>"

definition near_b :: complaint where
  "near_b = sample_complaint\<lparr>id_c := 2, latitude := 28.61395, longitude := 77.20901,
                               severity_score := 0.8\<rparr>"

section \<open>Properties\<close>

subsection \<open>Priority tiers\<close>

lemma tier_rank_priority:
  "tier_rank (get_priority_from_score s) =
     (if s \<ge> 0.8 then 3 else if s \<ge> 0.6 then 2 else if s \<ge> 0.4 then 1 else 0)"
  by (simp add: tier_rank_def get_priority_from_score_def)

text \<open>
  Claim C4. \<^const>\<open>get_priority_from_score\<close> returns critical exactly for scores from 0.8
  up, high exactly on [0.6, 0.8), medium exactly on [0.4, 0.6) and low exactly below 0.4,
  so every score gets one of the four tiers and no score gets two; the tier never goes
  down when the score goes up; and 0.8, 0.6 and 0.4 themselves fall in the higher tier.
\<close>

theorem C4_priority_mapping:
  "(get_priority_from_score s = ''critical'' \<longleftrightarrow> s \<ge> 0.8)
   \<and> (get_priority_from_score s = ''high'' \<longleftrightarrow> 0.6 \<le> s \<and> s < 0.8)
   \<and> (get_priority_from_score s = ''medium'' \<longleftrightarrow> 0.4 \<le> s \<and> s < 0.6)
   \<and> (get_priority_from_score s = ''low'' \<longleftrightarrow> s < 0.4)
   \<and> get_priority_from_score s \<in> {''critical'', ''high'', ''medium'', ''low''}
   \<and> (s \<le> t \<longrightarrow> tier_rank (get_priority_from_score s) \<le> tier_rank (get_priority_from_score t))
   \<and> get_priority_from_score 0.8 = ''critical''
   \<and> get_priority_from_score 0.6 = ''high''
   \<and> get_priority_from_score 0.4 = ''medium''"
proof -
  have mono: "s \<le> t \<longrightarrow> tier_rank (get_priority_from_score s) \<le> tier_rank (get_priority_from_score t)"
    unfolding tier_rank_priority by auto
  have rest: "(get_priority_from_score s = ''critical'' \<longleftrightarrow> s \<ge> 0.8)
   \<and> (get_priority_from_score s = ''high'' \<longleftrightarrow> 0.6 \<le> s \<and> s < 0.8)
   \<and> (get_priority_from_score s = ''medium'' \<longleftrightarrow> 0.4 \<le> s \<and> s < 0.6)
   \<and> (get_priority_from_score s = ''low'' \<longleftrightarrow> s < 0.4)
   \<and> get_priority_from_score s \<in> {''critical'', ''high'', ''medium'', ''low''}"
    by (auto simp add: get_priority_from_score_def)
  have b: "get_priority_from_score 0.8 = ''critical''
   \<and> get_priority_from_score 0.6 = ''high''
   \<and> get_priority_from_score 0.4 = ''medium''"
    by (simp add: get_priority_from_score_def)
  from mono rest b show ?thesis by blast
qed

theorem C4_priority_mapping_witness:
  "(0.79999::real) \<le> 0.8 \<and> get_priority_from_score 0.79999 = ''high''
   \<and> get_priority_from_score 0.8 = ''critical''
   \<and> tier_rank (get_priority_from_score 0.79999) \<le> tier_rank (get_priority_from_score 0.8)"
  using C4_priority_mapping [of "0.79999" "0.8"] by (simp add: tier_rank_def)

subsection \<open>Escalation rules\<close>

lemma threshold_lookup:
  "(case thresholds p of Some h \<Rightarrow> h | None \<Rightarrow> 72) = threshold_spec p"
  by (simp add: thresholds_def threshold_spec_def)

lemma check_escalation_unfold:
  "check_escalation now c =
     (if status c = ''resolved'' \<or> status c = ''closed'' then (False, c)
      else if hours_between now (created_at c) > real (threshold_spec (priority c))
              \<and> escalation_level c = 0
      then (True, c\<lparr>escalation_level := 1, escalated_at := Some now\<rparr>)
      else if hours_between now (created_at c) > 2 * real (threshold_spec (priority c))
              \<and> escalation_level c = 1
      then (True, c\<lparr>escalation_level := 2\<rparr>)
      else (False, c))"
  unfolding check_escalation_def threshold_lookup Let_def by simp

text \<open>
  Claim C3. A resolved or closed complaint is returned unchanged with \<open>False\<close>.
  Otherwise, with the hours between creation and now and the threshold of the priority
  (4, 24, 72, 168, and 72 for an unknown priority): at level 0 above the threshold the
  complaint moves to level 1, and only to level 1, with \<open>escalated_at\<close> set to now; at
  level 1 above twice the threshold it moves to level 2 and nothing else changes; at
  level 2 nothing happens. The flag returned is \<open>True\<close> exactly when the level has
  changed, and with \<open>False\<close> the complaint is unchanged. These are the only
  transitions: an open complaint to which neither rule applies is returned unchanged with
  \<open>False\<close>, so nothing happens at level 0 at or below the threshold, at level 1 at or
  below twice the threshold, or at any other level. The threshold the code looks up is the
  one of the table.
\<close>

theorem C3_check_escalation_rules:
  "(status c = ''resolved'' \<or> status c = ''closed'' \<longrightarrow> check_escalation now c = (False, c))
   \<and> (status c \<noteq> ''resolved'' \<and> status c \<noteq> ''closed'' \<longrightarrow>
        (escalation_level c = 0
           \<and> hours_between now (created_at c) > real (threshold_spec (priority c)) \<longrightarrow>
           check_escalation now c
             = (True, c\<lparr>escalation_level := 1, escalated_at := Some now\<rparr>))
      \<and> (escalation_level c = 1
           \<and> hours_between now (created_at c) > 2 * real (threshold_spec (priority c)) \<longrightarrow>
           check_escalation now c = (True, c\<lparr>escalation_level := 2\<rparr>))
      \<and> (escalation_level c = 2 \<longrightarrow> check_escalation now c = (False, c)))
   \<and> (fst (check_escalation now c)
        \<longleftrightarrow> escalation_level (snd (check_escalation now c)) \<noteq> escalation_level c)
   \<and> (\<not> fst (check_escalation now c) \<longrightarrow> snd (check_escalation now c) = c)
   \<and> (status c \<noteq> ''resolved'' \<and> status c \<noteq> ''closed''
        \<and> \<not> (escalation_level c = 0
               \<and> hours_between now (created_at c) > real (threshold_spec (priority c)))
        \<and> \<not> (escalation_level c = 1
               \<and> hours_between now (created_at c) > 2 * real (threshold_spec (priority c)))
        \<longrightarrow> check_escalation now c = (False, c))
   \<and> (escalation_level c = 0
        \<and> hours_between now (created_at c) \<le> real (threshold_spec (priority c))
        \<longrightarrow> check_escalation now c = (False, c))
   \<and> (escalation_level c = 1
        \<and> hours_between now (created_at c) \<le> 2 * real (threshold_spec (priority c))
        \<longrightarrow> check_escalation now c = (False, c))
   \<and> (escalation_level c \<noteq> 0 \<and> escalation_level c \<noteq> 1
        \<longrightarrow> check_escalation now c = (False, c))
   \<and> (case thresholds (priority c) of Some h \<Rightarrow> h | None \<Rightarrow> 72)
       = threshold_spec (priority c)"
proof -
  have rules: "(status c = ''resolved'' \<or> status c = ''closed'' \<longrightarrow> check_escalation now c = (False, c))
   \<and> (status c \<noteq> ''resolved'' \<and> status c \<noteq> ''closed'' \<longrightarrow>
        (escalation_level c = 0
           \<and> hours_between now (created_at c) > real (threshold_spec (priority c)) \<longrightarrow>
           check_escalation now c
             = (True, c\<lparr>escalation_level := 1, escalated_at := Some now\<rparr>))
      \<and> (escalation_level c = 1
           \<and> hours_between now (created_at c) > 2 * real (threshold_spec (priority c)) \<longrightarrow>
           check_escalation now c = (True, c\<lparr>escalation_level := 2\<rparr>))
      \<and> (escalation_level c = 2 \<longrightarrow> check_escalation now c = (False, c)))
   \<and> (fst (check_escalation now c)
        \<longleftrightarrow> escalation_level (snd (check_escalation now c)) \<noteq> escalation_level c)
   \<and> (\<not> fst (check_escalation now c) \<longrightarrow> snd (check_escalation now c) = c)"
    unfolding check_escalation_unfold by auto
  have idle: "status c \<noteq> ''resolved'' \<and> status c \<noteq> ''closed''
        \<and> \<not> (escalation_level c = 0
               \<and> hours_between now (created_at c) > real (threshold_spec (priority c)))
        \<and> \<not> (escalation_level c = 1
               \<and> hours_between now (created_at c) > 2 * real (threshold_spec (priority c)))
        \<longrightarrow> check_escalation now c = (False, c)"
    unfolding check_escalation_unfold by auto
  have below: "(escalation_level c = 0
        \<and> hours_between now (created_at c) \<le> real (threshold_spec (priority c))
        \<longrightarrow> check_escalation now c = (False, c))
   \<and> (escalation_level c = 1
        \<and> hours_between now (created_at c) \<le> 2 * real (threshold_spec (priority c))
        \<longrightarrow> check_escalation now c = (False, c))
   \<and> (escalation_level c \<noteq> 0 \<and> escalation_level c \<noteq> 1
        \<longrightarrow> check_escalation now c = (False, c))"
    unfolding check_escalation_unfold by auto
  from rules idle below threshold_lookup [of "priority c"] show ?thesis by blast
qed

theorem C3_check_escalation_rules_witness:
  "status sample_complaint \<noteq> ''resolved'' \<and> status sample_complaint \<noteq> ''closed''
   \<and> escalation_level sample_complaint = 0
   \<and> hours_between 32400000000 (created_at sample_complaint)
        > 2 * real (threshold_spec (priority sample_complaint))
   \<and> escalation_level (snd (check_escalation 32400000000 sample_complaint)) = 1
   \<and> escalated_at (snd (check_escalation 32400000000 sample_complaint)) = Some 32400000000
   \<and> fst (check_escalation 32400000000 sample_complaint)
   \<and> hours_between 14400000000 (created_at sample_complaint)
        \<le> real (threshold_spec (priority sample_complaint))
   \<and> check_escalation 14400000000 sample_complaint = (False, sample_complaint)"
  using C3_check_escalation_rules [of sample_complaint 32400000000]
        C3_check_escalation_rules [of sample_complaint 14400000000]
  by (simp add: sample_complaint_def threshold_spec_def hours_between_def)

subsection \<open>Keyword urgency\<close>

lemma keyword_hits_none:
  "\<not> list_ex (\<lambda>kw. sublist kw t) kws \<Longrightarrow> keyword_hits kws t = 0"
  by (simp add: keyword_hits_def list_ex_iff)

lemma tier_average_bounds:
  assumes "0 < h + m + l"
  shows "1 / 10 \<le> tier_average h m l" and "tier_average h m l \<le> 7 / 10"
proof -
  define N where "N = real h * (7 / 10) + real m * (4 / 10) + real l * (1 / 10)"
  define T where "T = real (h + m + l)"
  have pos: "0 < T" unfolding T_def using assms by (simp only: of_nat_0_less_iff)
  have T: "T = real h + real m + real l" unfolding T_def by simp
  have nn: "0 \<le> real h" "0 \<le> real m" "0 \<le> real l" by simp_all
  have lo: "1 / 10 * T \<le> N" unfolding T N_def using nn by argo
  have hi: "N \<le> 7 / 10 * T" unfolding T N_def using nn by argo
  have "1 / 10 \<le> N / T" using lo pos by (simp only: pos_le_divide_eq)
  moreover have "N / T \<le> 7 / 10" using hi pos by (simp only: pos_divide_le_eq)
  ultimately show "1 / 10 \<le> tier_average h m l" and "tier_average h m l \<le> 7 / 10"
    unfolding N_def T_def tier_average_def by blast+
qed

lemma urgency_without_critical:
  assumes "\<not> list_ex (\<lambda>kw. sublist kw (lower text)) urgency_critical"
  shows "calculate_keyword_urgency text =
           (if keyword_hits urgency_high (lower text) + keyword_hits urgency_medium (lower text)
                 + keyword_hits urgency_low (lower text) = 0 then 3 / 10
            else tier_average (keyword_hits urgency_high (lower text))
                   (keyword_hits urgency_medium (lower text))
                   (keyword_hits urgency_low (lower text)))"
proof -
  let ?h = "keyword_hits urgency_high (lower text)"
  let ?m = "keyword_hits urgency_medium (lower text)"
  let ?l = "keyword_hits urgency_low (lower text)"
  have c0: "keyword_hits urgency_critical (lower text) = 0"
    using assms by (rule keyword_hits_none)
  have step: "calculate_keyword_urgency text =
                (if ?h + ?m + ?l = 0 then 3 / 10 else min (tier_average ?h ?m ?l) 1)"
    using assms c0 by (simp add: calculate_keyword_urgency_def Let_def tier_average_def)
  show ?thesis
  proof (cases "?h + ?m + ?l = 0")
    case True
    then show ?thesis using step by simp
  next
    case False
    then have pos: "0 < ?h + ?m + ?l" by simp
    have "tier_average ?h ?m ?l \<le> 1"
      using tier_average_bounds(2) [OF pos] by linarith
    then have "min (tier_average ?h ?m ?l) 1 = tier_average ?h ?m ?l"
      by (rule min_absorb1)
    then show ?thesis using step False by simp
  qed
qed

lemma urgency_range:
  "calculate_keyword_urgency text = 1
   \<or> (1 / 10 \<le> calculate_keyword_urgency text \<and> calculate_keyword_urgency text \<le> 7 / 10)"
proof (cases "list_ex (\<lambda>kw. sublist kw (lower text)) urgency_critical")
  case True
  then show ?thesis by (simp add: calculate_keyword_urgency_def)
next
  case False
  let ?h = "keyword_hits urgency_high (lower text)"
  let ?m = "keyword_hits urgency_medium (lower text)"
  let ?l = "keyword_hits urgency_low (lower text)"
  show ?thesis
  proof (cases "?h + ?m + ?l = 0")
    case True
    then show ?thesis using urgency_without_critical [OF False] by simp
  next
    case nz: False
    then have pos: "0 < ?h + ?m + ?l" by simp
    show ?thesis
      using urgency_without_critical [OF False] nz tier_average_bounds [OF pos]
      by simp
  qed
qed

text \<open>
  Claim C5. For every text \<^const>\<open>calculate_keyword_urgency\<close> equals the reference
  definition \<^const>\<open>urgency_reference\<close> (1.0 as soon as a critical keyword occurs in the
  lower-cased text, otherwise the hit counts weighted by 1.0, 0.7, 0.4, 0.1 over the total
  hit count, and 0.30 when nothing is hit), and the result lies between 0 and 1.
\<close>

theorem C5_urgency_matches_reference:
  "calculate_keyword_urgency text = urgency_reference text
   \<and> 0 \<le> calculate_keyword_urgency text \<and> calculate_keyword_urgency text \<le> 1"
proof -
  have eq: "calculate_keyword_urgency text = urgency_reference text"
  proof (cases "list_ex (\<lambda>kw. sublist kw (lower text)) urgency_critical")
    case True
    then show ?thesis by (simp add: calculate_keyword_urgency_def urgency_reference_def)
  next
    case False
    have c0: "keyword_hits urgency_critical (lower text) = 0"
      using False by (rule keyword_hits_none)
    have u: "calculate_keyword_urgency text =
           (if keyword_hits urgency_high (lower text) + keyword_hits urgency_medium (lower text)
                 + keyword_hits urgency_low (lower text) = 0 then 3 / 10
            else tier_average (keyword_hits urgency_high (lower text))
                   (keyword_hits urgency_medium (lower text))
                   (keyword_hits urgency_low (lower text)))"
      using False by (rule urgency_without_critical)
    show ?thesis
      unfolding u
      using False c0 by (simp add: urgency_reference_def Let_def tier_average_def add.assoc)
  qed
  have "0 \<le> calculate_keyword_urgency text \<and> calculate_keyword_urgency text \<le> 1"
    using urgency_range [of "text"] by auto
  with eq show ?thesis by simp
qed

subsection \<open>Severity at submission\<close>

lemma py_round_lower: "of_int a \<le> x \<Longrightarrow> a \<le> py_round x"
proof -
  assume "of_int a \<le> x"
  then have "a \<le> \<lfloor>x\<rfloor>" by (simp add: le_floor_iff)
  then show ?thesis by (simp add: py_round_def Let_def)
qed

lemma py_round_upper: "x \<le> of_int b \<Longrightarrow> py_round x \<le> b"
proof -
  assume xb: "x \<le> of_int b"
  then have fb: "\<lfloor>x\<rfloor> \<le> b" by (simp add: floor_le_iff) 
  show ?thesis
  proof (cases "x - of_int \<lfloor>x\<rfloor> < 1 / 2")
    case True
    then show ?thesis using fb by (simp add: py_round_def Let_def)
  next
    case False
    then have "of_int \<lfloor>x\<rfloor> < x" by linarith
    then have "of_int \<lfloor>x\<rfloor> < (of_int b :: real)" using xb by linarith
    then have "\<lfloor>x\<rfloor> < b" by simp
    then show ?thesis by (simp add: py_round_def Let_def)
  qed
qed

lemma round_ndigits_bounds:
  assumes "of_int a / 10 ^ n \<le> x" and "x \<le> of_int b / 10 ^ n"
  shows "of_int a / 10 ^ n \<le> round_ndigits x n \<and> round_ndigits x n \<le> of_int b / 10 ^ n"
proof -
  have p: "(0::real) < 10 ^ n" by simp
  have "of_int a \<le> x * 10 ^ n" using assms(1) p by (simp add: pos_divide_le_eq)
  then have lo: "a \<le> py_round (x * 10 ^ n)" by (rule py_round_lower)
  have "x * 10 ^ n \<le> of_int b" using assms(2) p by (simp add: pos_le_divide_eq)
  then have hi: "py_round (x * 10 ^ n) \<le> b" by (rule py_round_upper)
  from lo hi show ?thesis
    unfolding round_ndigits_def using p by (simp add: divide_le_cancel)
qed

lemma submission_severity:
  assumes "config = None \<or> config = Some default_weights"
  shows "calculate_severity_score config t k la lo 0
           = round_ndigits (3 / 10 * calculate_keyword_urgency t + 21 / 100) 3"
proof -
  have le1: "3 / 10 * calculate_keyword_urgency t + 21 / 100 \<le> 1"
    using urgency_range [of t] by linarith
  have m: "min (3 / 10 * calculate_keyword_urgency t + 21 / 100) 1
             = 3 / 10 * calculate_keyword_urgency t + 21 / 100"
    using le1 by (rule min_absorb1)
  have "calculate_severity_score config t k la lo 0
          = round_ndigits (min (3 / 10 * calculate_keyword_urgency t + 21 / 100) 1) 3"
    using assms
    by (auto simp add: calculate_severity_score_def default_weights_def Let_def
          calculate_location_importance_def get_nearby_complaint_factor_def add.commute)
  then show ?thesis unfolding m .
qed

lemma submission_severity_bounds:
  assumes "config = None \<or> config = Some default_weights"
  shows "24 / 100 \<le> calculate_severity_score config t k la lo 0
         \<and> calculate_severity_score config t k la lo 0 \<le> 51 / 100"
proof -
  let ?x = "3 / 10 * calculate_keyword_urgency t + 21 / 100"
  have lo: "of_int 240 / 10 ^ 3 \<le> ?x" using urgency_range [of t] by auto
  have hi: "?x \<le> of_int 510 / 10 ^ 3" using urgency_range [of t] by auto
  have "of_int 240 / 10 ^ 3 \<le> round_ndigits ?x 3 \<and> round_ndigits ?x 3 \<le> of_int 510 / 10 ^ 3"
    using lo hi by (rule round_ndigits_bounds)
  then show ?thesis unfolding submission_severity [OF assms] by simp
qed

lemma submission_result:
  assumes "config = None \<or> config = Some default_weights"
  shows "24 / 100 \<le> res_severity_score (process_complaint config t cat la lo)
         \<and> res_severity_score (process_complaint config t cat la lo) \<le> 51 / 100
         \<and> res_priority (process_complaint config t cat la lo) \<in> {''medium'', ''low''}"
proof -
  define k where "k = (case cat of
                         None \<Rightarrow> fst (classify_category t)
                       | Some c \<Rightarrow> if c \<in> set categories then c
                                   else fst (classify_category t))"
  have sev: "res_severity_score (process_complaint config t cat la lo)
               = calculate_severity_score config t k la lo 0"
    by (simp add: process_complaint_def Let_def case_prod_beta k_def)
  have pri: "res_priority (process_complaint config t cat la lo)
               = get_priority_from_score (calculate_severity_score config t k la lo 0)"
    by (simp add: process_complaint_def Let_def case_prod_beta k_def)
  have b: "24 / 100 \<le> calculate_severity_score config t k la lo 0
           \<and> calculate_severity_score config t k la lo 0 \<le> 51 / 100"
    using assms by (rule submission_severity_bounds)
  then have "get_priority_from_score (calculate_severity_score config t k la lo 0)
               \<in> {''medium'', ''low''}"
    by (simp add: get_priority_from_score_def)
  with b sev pri show ?thesis by simp
qed

text \<open>
  Claim C10. At submission (no hours unresolved, location importance 0.5, nearby factor
  0.3, weights 0.3, 0.2, 0.2, 0.3, whether built in or configured) the severity score of
  \<^const>\<open>process_complaint\<close> lies in [0.24, 0.51] for every text, category hint and
  coordinates, and the priority is medium or low, so never critical or high.
\<close>

theorem C10_submission_priority:
  "0.24 \<le> res_severity_score (process_complaint None t cat la lo)
   \<and> res_severity_score (process_complaint None t cat la lo) \<le> 0.51
   \<and> res_priority (process_complaint None t cat la lo) \<in> {''medium'', ''low''}
   \<and> 0.24 \<le> res_severity_score (process_complaint (Some default_weights) t cat la lo)
   \<and> res_severity_score (process_complaint (Some default_weights) t cat la lo) \<le> 0.51
   \<and> res_priority (process_complaint (Some default_weights) t cat la lo) \<in> {''medium'', ''low''}"
  using submission_result [of None t cat la lo]
        submission_result [of "Some default_weights" t cat la lo]
  by simp

text \<open>Both ends of the interval are reached.\<close>

lemmas kw_defs = calculate_keyword_urgency_def lower_def lower_char_def urgency_critical_def
    urgency_high_def urgency_medium_def urgency_low_def keyword_hits_def sublist_code

lemma submission_upper_bound_attained: "calculate_severity_score None ''there is a gas leak on the street'' ''roads'' 0 0 0 = 0.51"
  by (simp add: calculate_severity_score_def default_weights_def Let_def
          calculate_location_importance_def get_nearby_complaint_factor_def kw_defs round_ndigits_def py_round_def)

lemma submission_lower_bound_attained: "calculate_severity_score None ''a minor suggestion'' ''roads'' 0 0 0 = 0.24"
  by (simp add: calculate_severity_score_def default_weights_def Let_def
          calculate_location_importance_def get_nearby_complaint_factor_def kw_defs round_ndigits_def py_round_def)

subsection \<open>Category classification\<close>

lemma max_by_value_mem: "max_by_value b xs \<in> set (b # xs)"
  by (induction xs arbitrary: b) auto

lemma max_by_value_bound:
  "snd b \<le> snd (max_by_value b xs) \<and> (\<forall>y\<in>set xs. snd y \<le> snd (max_by_value b xs))"
proof (induction xs arbitrary: b)
  case Nil
  then show ?case by simp
next
  case (Cons x xs)
  let ?b = "if snd b < snd x then x else b"
  have ih: "snd ?b \<le> snd (max_by_value ?b xs)"
           "\<forall>y\<in>set xs. snd y \<le> snd (max_by_value ?b xs)"
    using Cons.IH [of ?b] by blast+
  have "snd b \<le> snd ?b" and "snd x \<le> snd ?b" by simp_all
  with ih have "snd b \<le> snd (max_by_value ?b xs)" and "snd x \<le> snd (max_by_value ?b xs)"
    by linarith+
  with ih(2) show ?case by simp
qed

lemma max_by_value_ge: "y \<in> set (b # xs) \<Longrightarrow> snd y \<le> snd (max_by_value b xs)"
  using max_by_value_bound [of b xs] by auto

lemma sum_list_positive_entries:
  "sum_list (map snd (filter (\<lambda>(c, s). s > 0) (xs :: ('a \<times> nat) list))) = sum_list (map snd xs)"
  by (induction xs) auto

lemma category_scores_alt:
  "category_scores t = filter (\<lambda>(c, s). s > 0) (map (\<lambda>c. (c, category_count t c)) (map fst category_keywords))"
  by (simp add: category_scores_def category_count_def category_keywords_def)

lemma total_count_alt:
  "total_count t = sum_list (map (category_count t) (map fst category_keywords))"
  by (simp add: total_count_def category_count_def category_keywords_def)

lemma category_count_outside:
  "c \<notin> set (map fst category_keywords) \<Longrightarrow> category_count t c = 0"
  by (simp add: category_count_def map_of_eq_None_iff [THEN iffD2] image_iff)

lemma other_not_a_key: "''other'' \<notin> set (map fst category_keywords)"
  by (simp add: category_keywords_def)

lemma scores_empty_iff:
  "category_scores t = [] \<longleftrightarrow> (\<forall>c. category_count t c = 0)"
proof
  assume e: "category_scores t = []"
  show "\<forall>c. category_count t c = 0"
  proof
    fix c
    show "category_count t c = 0"
    proof (cases "c \<in> set (map fst category_keywords)")
      case True
      then have "(c, category_count t c) \<in> set (map (\<lambda>c. (c, category_count t c)) (map fst category_keywords))"
        by auto
      then show ?thesis using e unfolding category_scores_alt filter_empty_conv by auto
    next
      case False
      then show ?thesis by (rule category_count_outside)
    qed
  qed
next
  assume "\<forall>c. category_count t c = 0"
  then show "category_scores t = []"
    unfolding category_scores_alt filter_empty_conv by auto
qed

lemma scores_entries:
  "(c, n) \<in> set (category_scores t) \<longleftrightarrow>
     c \<in> set (map fst category_keywords) \<and> n = category_count t c \<and> 0 < n"
  unfolding category_scores_alt by auto

lemma scores_total: "sum_list (map snd (category_scores t)) = total_count t"
  unfolding category_scores_alt total_count_alt sum_list_positive_entries
  by (simp add: comp_def)

lemma entry_le_total: "(c, n) \<in> set xs \<Longrightarrow> (n::nat) \<le> sum_list (map snd xs)"
  by (induction xs) auto

lemma classify_nonempty:
  assumes "category_scores (lower txt) = x # xs"
  shows "fst (classify_category txt) \<in> set (map fst category_keywords)"
    and "category_count (lower txt) c \<le> category_count (lower txt) (fst (classify_category txt))"
    and "snd (classify_category txt)
           = min (real (category_count (lower txt) (fst (classify_category txt)))
                    / real (total_count (lower txt))) (9 / 10)"
proof -
  let ?t = "lower txt"
  obtain bc bn where r: "max_by_value x xs = (bc, bn)" by (cases "max_by_value x xs")
  have "(bc, bn) \<in> set (category_scores ?t)"
    using max_by_value_mem [of x xs] unfolding r assms by simp
  then have key: "bc \<in> set (map fst category_keywords)"
    and bn: "bn = category_count ?t bc" and pos: "0 < bn"
    unfolding scores_entries by simp_all
  have "bn \<le> sum_list (map snd (category_scores ?t))"
    using \<open>(bc, bn) \<in> set (category_scores ?t)\<close>
    by (rule entry_le_total)
  then have tot: "0 < total_count ?t" using pos unfolding scores_total by linarith
  have cl: "classify_category txt = (bc, min (real bn / real (total_count ?t)) (9 / 10))"
    using tot r scores_total [of ?t]
    by (simp add: classify_category_def Let_def assms)
  show "fst (classify_category txt) \<in> set (map fst category_keywords)"
    using key unfolding cl by simp
  show "category_count ?t c \<le> category_count ?t (fst (classify_category txt))"
  proof (cases "category_count ?t c = 0")
    case True
    then show ?thesis by simp
  next
    case False
    then have "c \<in> set (map fst category_keywords)"
      using category_count_outside [of c ?t] by (cases "c \<in> set (map fst category_keywords)") simp_all
    then have "(c, category_count ?t c) \<in> set (x # xs)"
      using False unfolding assms [symmetric] scores_entries by simp
    then have "snd (c, category_count ?t c) \<le> snd (max_by_value x xs)"
      by (rule max_by_value_ge)
    then show ?thesis unfolding r cl bn by simp
  qed
  show "snd (classify_category txt)
           = min (real (category_count ?t (fst (classify_category txt)))
                    / real (total_count ?t)) (9 / 10)"
    unfolding cl bn by simp
qed

lemmas classify_defs = classify_category_def category_scores_def category_keywords_def
  keyword_hits_def lower_def lower_char_def sublist_code Let_def

lemmas text_defs = lower_def lower_char_def keyword_hits_def sublist_code

lemma classify_example:
  "classify_category ''overflowing garbage dustbin near school'' = (''sanitation'', 0.9)"
proof -
  have l: "lower ''overflowing garbage dustbin near school''
             = ''overflowing garbage dustbin near school''"
    by (simp add: lower_def lower_char_def)
  have s: "category_scores ''overflowing garbage dustbin near school'' = [(''sanitation'', 2)]"
    by (simp add: category_scores_def category_keywords_def keyword_hits_def sublist_code)
  show ?thesis by (simp add: classify_category_def l s)
qed

text \<open>
  Claim C6. \<^const>\<open>classify_category\<close> returns other with confidence 0.30 exactly when
  no category has a positive keyword score. Otherwise it returns a category of the table
  whose score is maximal, with confidence the maximal score over the total score, capped
  at 0.90. The confidence is at most 0.9 on every text, and the text "overflowing garbage
  dustbin near school" is classified as sanitation with confidence at most 0.9.
\<close>

theorem C6_classify_category:
  "(classify_category txt = (''other'', 0.3) \<longleftrightarrow> (\<forall>c. category_count (lower txt) c = 0))
   \<and> ((\<exists>c. 0 < category_count (lower txt) c) \<longrightarrow>
        fst (classify_category txt) \<in> set (map fst category_keywords)
        \<and> (\<forall>c. category_count (lower txt) c
                  \<le> category_count (lower txt) (fst (classify_category txt)))
        \<and> snd (classify_category txt)
            = min (real (category_count (lower txt) (fst (classify_category txt)))
                     / real (total_count (lower txt))) 0.9)
   \<and> snd (classify_category txt) \<le> 0.9
   \<and> fst (classify_category ''overflowing garbage dustbin near school'') = ''sanitation''
   \<and> snd (classify_category ''overflowing garbage dustbin near school'') \<le> 0.9"
proof (cases "category_scores (lower txt)")
  case Nil
  then have z: "\<forall>c. category_count (lower txt) c = 0" unfolding scores_empty_iff .
  have cl: "classify_category txt = (''other'', 3 / 10)"
    using Nil by (simp add: classify_category_def)
  show ?thesis using z cl classify_example by simp
next
  case (Cons x xs)
  then have nz: "\<not> (\<forall>c. category_count (lower txt) c = 0)"
    unfolding scores_empty_iff [symmetric] by simp
  have k: "fst (classify_category txt) \<noteq> ''other''"
    using classify_nonempty(1) [OF Cons] other_not_a_key by metis
  then have ne: "classify_category txt \<noteq> (''other'', 3 / 10)" by auto
  have le: "snd (classify_category txt) \<le> 9 / 10"
    unfolding classify_nonempty(3) [OF Cons] by (rule min.cobounded2)
  show ?thesis
    using nz ne le classify_nonempty [OF Cons] classify_example by simp
qed


theorem C6_classify_category_witness:
  "(\<exists>c. 0 < category_count (lower ''Garbage and waste near the bus stop'') c)
   \<and> classify_category ''Garbage and waste near the bus stop'' = (''sanitation'', 0.5)
   \<and> category_count (lower ''Garbage and waste near the bus stop'') ''public_transport'' = 2
   \<and> total_count (lower ''Garbage and waste near the bus stop'') = 4"
proof -
  have l: "lower ''Garbage and waste near the bus stop'' = ''garbage and waste near the bus stop''"
    by (simp add: lower_def lower_char_def)
  have s: "category_scores ''garbage and waste near the bus stop''
             = [(''sanitation'', 2), (''public_transport'', 2)]"
    by (simp add: category_scores_def category_keywords_def keyword_hits_def sublist_code)
  have c: "classify_category ''Garbage and waste near the bus stop'' = (''sanitation'', 0.5)"
    by (simp add: classify_category_def l s)
  have p: "category_count ''garbage and waste near the bus stop'' ''public_transport'' = 2"
    by (simp add: category_count_def category_keywords_def keyword_hits_def sublist_code)
  have n: "category_count ''garbage and waste near the bus stop'' ''sanitation'' = 2"
    by (simp add: category_count_def category_keywords_def keyword_hits_def sublist_code)
  have t: "total_count ''garbage and waste near the bus stop'' = 4"
    using scores_total [of "''garbage and waste near the bus stop''"] unfolding s by simp
  have e: "\<exists>c. 0 < category_count (lower ''Garbage and waste near the bus stop'') c"
    unfolding l using n by (intro exI [of _ "''sanitation''"]) simp
  show ?thesis
    using C6_classify_category [of "''Garbage and waste near the bus stop''"] e c p t
    unfolding l by simp
qed

subsection \<open>Assignment\<close>

lemma select_loop_running:
  "\<exists>r. select_loop rows os (Some m) (Some s) = Some r
       \<and> ((r = s \<and> (\<forall>u\<in>set os. m \<le> load rows u))
          \<or> (\<exists>pre post. os = pre @ r # post \<and> load rows r < m
                \<and> (\<forall>u\<in>set pre. load rows r < load rows u)
                \<and> (\<forall>u\<in>set post. load rows r \<le> load rows u)))"
proof (induction os arbitrary: m s)
  case Nil
  then show ?case by simp
next
  case (Cons a os)
  show ?case
  proof (cases "load rows a < m")
    case True
    obtain r where r: "select_loop rows os (Some (load rows a)) (Some a) = Some r"
      and d: "(r = a \<and> (\<forall>u\<in>set os. load rows a \<le> load rows u))
          \<or> (\<exists>pre post. os = pre @ r # post \<and> load rows r < load rows a
                \<and> (\<forall>u\<in>set pre. load rows r < load rows u)
                \<and> (\<forall>u\<in>set post. load rows r \<le> load rows u))"
      using Cons.IH [of "load rows a" a] by blast
    have run: "select_loop rows (a # os) (Some m) (Some s) = Some r"
      using True r by (simp add: load_def)
    from d have "\<exists>pre post. a # os = pre @ r # post \<and> load rows r < m
                \<and> (\<forall>u\<in>set pre. load rows r < load rows u)
                \<and> (\<forall>u\<in>set post. load rows r \<le> load rows u)"
    proof
      assume "r = a \<and> (\<forall>u\<in>set os. load rows a \<le> load rows u)"
      then have "a # os = [] @ r # os \<and> load rows r < m
                \<and> (\<forall>u\<in>set []. load rows r < load rows u)
                \<and> (\<forall>u\<in>set os. load rows r \<le> load rows u)"
        using True by simp
      then show ?thesis by blast
    next
      assume "\<exists>pre post. os = pre @ r # post \<and> load rows r < load rows a
                \<and> (\<forall>u\<in>set pre. load rows r < load rows u)
                \<and> (\<forall>u\<in>set post. load rows r \<le> load rows u)"
      then obtain pre post where p: "os = pre @ r # post" "load rows r < load rows a"
        "\<forall>u\<in>set pre. load rows r < load rows u" "\<forall>u\<in>set post. load rows r \<le> load rows u"
        by blast
      have "a # os = (a # pre) @ r # post \<and> load rows r < m
                \<and> (\<forall>u\<in>set (a # pre). load rows r < load rows u)
                \<and> (\<forall>u\<in>set post. load rows r \<le> load rows u)"
        using p True by simp
      then show ?thesis by blast
    qed
    with run show ?thesis by blast
  next
    case False
    obtain r where r: "select_loop rows os (Some m) (Some s) = Some r"
      and d: "(r = s \<and> (\<forall>u\<in>set os. m \<le> load rows u))
          \<or> (\<exists>pre post. os = pre @ r # post \<and> load rows r < m
                \<and> (\<forall>u\<in>set pre. load rows r < load rows u)
                \<and> (\<forall>u\<in>set post. load rows r \<le> load rows u))"
      using Cons.IH [of m s] by blast
    have run: "select_loop rows (a # os) (Some m) (Some s) = Some r"
      using False r by (simp add: load_def)
    from d have "(r = s \<and> (\<forall>u\<in>set (a # os). m \<le> load rows u))
          \<or> (\<exists>pre post. a # os = pre @ r # post \<and> load rows r < m
                \<and> (\<forall>u\<in>set pre. load rows r < load rows u)
                \<and> (\<forall>u\<in>set post. load rows r \<le> load rows u))"
    proof
      assume "r = s \<and> (\<forall>u\<in>set os. m \<le> load rows u)"
      then show ?thesis using False by simp
    next
      assume "\<exists>pre post. os = pre @ r # post \<and> load rows r < m
                \<and> (\<forall>u\<in>set pre. load rows r < load rows u)
                \<and> (\<forall>u\<in>set post. load rows r \<le> load rows u)"
      then obtain pre post where p: "os = pre @ r # post" "load rows r < m"
        "\<forall>u\<in>set pre. load rows r < load rows u" "\<forall>u\<in>set post. load rows r \<le> load rows u"
        by blast
      have "a # os = (a # pre) @ r # post \<and> load rows r < m
                \<and> (\<forall>u\<in>set (a # pre). load rows r < load rows u)
                \<and> (\<forall>u\<in>set post. load rows r \<le> load rows u)"
        using p False by simp
      then show ?thesis by blast
    qed
    with run show ?thesis by blast
  qed
qed

lemma select_loop_first_minimum:
  assumes "officers \<noteq> []"
  shows "\<exists>pre r post. select_loop rows officers None None = Some r
           \<and> officers = pre @ r # post
           \<and> (\<forall>u\<in>set pre. load rows r < load rows u)
           \<and> (\<forall>u\<in>set post. load rows r \<le> load rows u)"
proof -
  obtain a os where o: "officers = a # os" using assms by (cases officers) auto
  have start: "select_loop rows officers None None
                 = select_loop rows os (Some (load rows a)) (Some a)"
    unfolding o by (simp add: load_def)
  obtain r where r: "select_loop rows os (Some (load rows a)) (Some a) = Some r"
      and d: "(r = a \<and> (\<forall>u\<in>set os. load rows a \<le> load rows u))
          \<or> (\<exists>pre post. os = pre @ r # post \<and> load rows r < load rows a
                \<and> (\<forall>u\<in>set pre. load rows r < load rows u)
                \<and> (\<forall>u\<in>set post. load rows r \<le> load rows u))"
    using select_loop_running [of rows os "load rows a" a] by blast
  from d show ?thesis
  proof
    assume "r = a \<and> (\<forall>u\<in>set os. load rows a \<le> load rows u)"
    then have "select_loop rows officers None None = Some r \<and> officers = [] @ r # os
           \<and> (\<forall>u\<in>set []. load rows r < load rows u)
           \<and> (\<forall>u\<in>set os. load rows r \<le> load rows u)"
      using start r o by simp
    then show ?thesis by blast
  next
    assume "\<exists>pre post. os = pre @ r # post \<and> load rows r < load rows a
                \<and> (\<forall>u\<in>set pre. load rows r < load rows u)
                \<and> (\<forall>u\<in>set post. load rows r \<le> load rows u)"
    then obtain pre post where p: "os = pre @ r # post" "load rows r < load rows a"
        "\<forall>u\<in>set pre. load rows r < load rows u" "\<forall>u\<in>set post. load rows r \<le> load rows u"
      by blast
    have "select_loop rows officers None None = Some r \<and> officers = (a # pre) @ r # post
           \<and> (\<forall>u\<in>set (a # pre). load rows r < load rows u)
           \<and> (\<forall>u\<in>set post. load rows r \<le> load rows u)"
      using start r o p by simp
    then show ?thesis by blast
  qed
qed

lemma select_loop_index:
  assumes "officers \<noteq> []"
  shows "\<exists>i<length officers. select_loop rows officers None None = Some (officers ! i)
           \<and> (\<forall>j<length officers. load rows (officers ! i) \<le> load rows (officers ! j))
           \<and> (\<forall>j<i. load rows (officers ! i) < load rows (officers ! j))"
proof -
  obtain pre r post where s: "select_loop rows officers None None = Some r"
    and o: "officers = pre @ r # post"
    and b: "\<forall>u\<in>set pre. load rows r < load rows u"
    and a: "\<forall>u\<in>set post. load rows r \<le> load rows u"
    using select_loop_first_minimum [OF assms, of rows] by blast
  have i: "length pre < length officers" and r: "officers ! length pre = r"
    unfolding o by simp_all
  have all: "\<forall>j<length officers. load rows r \<le> load rows (officers ! j)"
  proof (intro allI impI)
    fix j assume "j < length officers"
    then have "officers ! j \<in> set officers" by simp
    then have "officers ! j \<in> set pre \<or> officers ! j = r \<or> officers ! j \<in> set post"
      unfolding o by auto
    then show "load rows r \<le> load rows (officers ! j)"
      using a b by (auto intro: less_imp_le)
  qed
  have before: "\<forall>j<length pre. load rows r < load rows (officers ! j)"
  proof (intro allI impI)
    fix j assume j: "j < length pre"
    then have "officers ! j = pre ! j" unfolding o by (simp add: nth_append)
    then show "load rows r < load rows (officers ! j)" using b j by simp
  qed
  show ?thesis using i r s all before by blast
qed

lemma sample_officers:
  "department_officers sample_users ''Sanitation Department''
     = [sample_officer 10, sample_officer 11, sample_officer 12]"
  by (simp add: department_officers_def sample_users_def sample_officer_def)

lemma sample_loads:
  "map (load sample_rows) [sample_officer 10, sample_officer 11, sample_officer 12] = [3, 1, 1]"
  by (simp add: load_def pending_count_def sample_rows_def assigned_def sample_officer_def
        sample_complaint_def)

lemma sample_selection:
  "select_loop sample_rows [sample_officer 10, sample_officer 11, sample_officer 12] None None
     = Some (sample_officer 11)"
proof -
  have l: "load sample_rows (sample_officer 10) = 3" "load sample_rows (sample_officer 11) = 1"
    "load sample_rows (sample_officer 12) = 1"
    using sample_loads by simp_all
  then have p: "pending_count sample_rows (id_u (sample_officer 10)) = 3"
    "pending_count sample_rows (id_u (sample_officer 11)) = 1"
    "pending_count sample_rows (id_u (sample_officer 12)) = 1"
    unfolding load_def by simp_all
  show ?thesis by (simp add: p)
qed

text \<open>
  Claim C7. \<^const>\<open>auto_assign_complaint\<close> returns nobody, and leaves the complaint as
  it is, when the complaint has no department or the department has no active officer.
  Otherwise it returns the officer at some position \<open>i\<close> of the department's officers in
  query order, and assigns the complaint to that officer, where no officer has fewer open
  assignments (pending or in progress) and every officer before position \<open>i\<close> has strictly
  more. With open loads 3, 1, 1 in that order the officer at index 1 is selected.
\<close>

theorem C7_auto_assign:
  "(department c = None \<or> department c = Some [] \<longrightarrow>
      auto_assign_complaint users rows c = (None, c))
   \<and> (department c = Some dept \<and> department_officers users dept = [] \<longrightarrow>
      auto_assign_complaint users rows c = (None, c))
   \<and> (department c = Some dept \<and> dept \<noteq> [] \<and> department_officers users dept \<noteq> [] \<longrightarrow>
      (\<exists>i<length (department_officers users dept).
          auto_assign_complaint users rows c
            = (Some (department_officers users dept ! i),
               c\<lparr>officer_id := Some (id_u (department_officers users dept ! i))\<rparr>)
          \<and> (\<forall>j<length (department_officers users dept).
                 load rows (department_officers users dept ! i)
                   \<le> load rows (department_officers users dept ! j))
          \<and> (\<forall>j<i. load rows (department_officers users dept ! i)
                        < load rows (department_officers users dept ! j))))
   \<and> map (load sample_rows) (department_officers sample_users ''Sanitation Department'')
       = [3, 1, 1]
   \<and> fst (auto_assign_complaint sample_users sample_rows
             (sample_complaint\<lparr>department := Some ''Sanitation Department''\<rparr>))
       = Some (department_officers sample_users ''Sanitation Department'' ! 1)"
proof -
  have missing: "department c = None \<or> department c = Some [] \<longrightarrow>
      auto_assign_complaint users rows c = (None, c)"
    by (auto simp add: auto_assign_complaint_def)
  have nobody: "department c = Some dept \<and> department_officers users dept = [] \<longrightarrow>
      auto_assign_complaint users rows c = (None, c)"
    by (auto simp add: auto_assign_complaint_def)
  have chosen: "department c = Some dept \<and> dept \<noteq> [] \<and> department_officers users dept \<noteq> [] \<longrightarrow>
      (\<exists>i<length (department_officers users dept).
          auto_assign_complaint users rows c
            = (Some (department_officers users dept ! i),
               c\<lparr>officer_id := Some (id_u (department_officers users dept ! i))\<rparr>)
          \<and> (\<forall>j<length (department_officers users dept).
                 load rows (department_officers users dept ! i)
                   \<le> load rows (department_officers users dept ! j))
          \<and> (\<forall>j<i. load rows (department_officers users dept ! i)
                        < load rows (department_officers users dept ! j)))"
  proof
    assume a: "department c = Some dept \<and> dept \<noteq> [] \<and> department_officers users dept \<noteq> []"
    let ?os = "department_officers users dept"
    from a have ne: "?os \<noteq> []" by simp
    obtain i where i: "i < length ?os"
      and s: "select_loop rows ?os None None = Some (?os ! i)"
      and m: "\<forall>j<length ?os. load rows (?os ! i) \<le> load rows (?os ! j)"
      and f: "\<forall>j<i. load rows (?os ! i) < load rows (?os ! j)"
      using select_loop_index [OF ne, of rows] by blast
    have "auto_assign_complaint users rows c
            = (Some (?os ! i), c\<lparr>officer_id := Some (id_u (?os ! i))\<rparr>)"
      using a s by (simp add: auto_assign_complaint_def Let_def)
    with i m f show "\<exists>i<length ?os.
          auto_assign_complaint users rows c
            = (Some (?os ! i), c\<lparr>officer_id := Some (id_u (?os ! i))\<rparr>)
          \<and> (\<forall>j<length ?os. load rows (?os ! i) \<le> load rows (?os ! j))
          \<and> (\<forall>j<i. load rows (?os ! i) < load rows (?os ! j))"
      by blast
  qed
  have loads: "map (load sample_rows) (department_officers sample_users ''Sanitation Department'')
       = [3, 1, 1]"
    unfolding sample_officers by (rule sample_loads)
  have ex: "fst (auto_assign_complaint sample_users sample_rows
             (sample_complaint\<lparr>department := Some ''Sanitation Department''\<rparr>))
       = Some (department_officers sample_users ''Sanitation Department'' ! 1)"
    unfolding auto_assign_complaint_def Let_def
    by (simp add: sample_officers sample_selection del: select_loop.simps)
  from missing nobody chosen loads ex show ?thesis by blast
qed

theorem C7_auto_assign_witness:
  "department (sample_complaint\<lparr>department := Some ''Sanitation Department''\<rparr>)
     = Some ''Sanitation Department''
   \<and> department_officers sample_users ''Sanitation Department'' \<noteq> []
   \<and> fst (auto_assign_complaint sample_users sample_rows
            (sample_complaint\<lparr>department := Some ''Sanitation Department''\<rparr>))
      = Some (sample_officer 11)
   \<and> auto_assign_complaint sample_users sample_rows (sample_complaint\<lparr>department := None\<rparr>)
      = (None, sample_complaint\<lparr>department := None\<rparr>)"
  using C7_auto_assign [of "sample_complaint\<lparr>department := Some ''Sanitation Department''\<rparr>"
          sample_users sample_rows "''Sanitation Department''"]
        C7_auto_assign [of "sample_complaint\<lparr>department := None\<rparr>"
          sample_users sample_rows "''Sanitation Department''"]
  by (simp add: sample_officers)

subsection \<open>Repeated runs of the escalation driver\<close>

lemma run_as_visits:
  "run_escalation_check now rows
     = (length (filter (\<lambda>c. fst (visit now c)) rows), map (\<lambda>c. snd (visit now c)) rows)"
  by (induction rows) (simp_all add: visit_def is_open_def case_prod_beta Let_def)

lemma visit_unfold:
  "visit now c =
     (if \<not> is_open c then (False, c)
      else if hours_between now (created_at c) > real (threshold_spec (priority c))
              \<and> escalation_level c = 0
      then (True, c\<lparr>escalation_level := 1, escalated_at := Some now\<rparr>)
      else if hours_between now (created_at c) > 2 * real (threshold_spec (priority c))
              \<and> escalation_level c = 1
      then (True, c\<lparr>escalation_level := 2\<rparr>)
      else (False, c))"
  unfolding visit_def check_escalation_unfold by (auto simp add: is_open_def)

lemma visit_first_level:
  assumes "is_open c" and "escalation_level c = 0"
    and "hours_between now (created_at c) > real (threshold_spec (priority c))"
  shows "visit now c = (True, c\<lparr>escalation_level := 1, escalated_at := Some now\<rparr>)"
  using assms by (simp add: visit_unfold)

lemma visit_second_level:
  assumes "is_open c" and "escalation_level c = 1"
    and "hours_between now (created_at c) > 2 * real (threshold_spec (priority c))"
  shows "visit now c = (True, c\<lparr>escalation_level := 2\<rparr>)"
  using assms by (simp add: visit_unfold)

lemma visit_idle:
  assumes "\<not> is_open c
           \<or> (\<not> (escalation_level c = 0
                  \<and> hours_between now (created_at c) > real (threshold_spec (priority c)))
              \<and> \<not> (escalation_level c = 1
                  \<and> hours_between now (created_at c) > 2 * real (threshold_spec (priority c))))"
  shows "visit now c = (False, c)"
  using assms unfolding visit_unfold by (cases "is_open c") auto

lemma visit_cases:
  obtains
    (closed) "\<not> is_open c" "visit now c = (False, c)"
  | (first) "is_open c" "escalation_level c = 0"
      "hours_between now (created_at c) > real (threshold_spec (priority c))"
      "visit now c = (True, c\<lparr>escalation_level := 1, escalated_at := Some now\<rparr>)"
  | (second) "is_open c" "escalation_level c = 1"
      "hours_between now (created_at c) > 2 * real (threshold_spec (priority c))"
      "visit now c = (True, c\<lparr>escalation_level := 2\<rparr>)"
  | (idle) "is_open c"
      "\<not> (escalation_level c = 0
          \<and> hours_between now (created_at c) > real (threshold_spec (priority c)))"
      "\<not> (escalation_level c = 1
          \<and> hours_between now (created_at c) > 2 * real (threshold_spec (priority c)))"
      "visit now c = (False, c)"
proof (cases "is_open c")
  case False
  then show ?thesis using closed visit_idle [of c now] by blast
next
  case op: True
  show ?thesis
  proof (cases "escalation_level c = 0
          \<and> hours_between now (created_at c) > real (threshold_spec (priority c))")
    case True
    then show ?thesis using first op visit_first_level [of c now] by blast
  next
    case n0: False
    show ?thesis
    proof (cases "escalation_level c = 1
          \<and> hours_between now (created_at c) > 2 * real (threshold_spec (priority c))")
      case True
      then show ?thesis using second op visit_second_level [of c now] by blast
    next
      case False
      then show ?thesis using idle op n0 visit_idle [of c now] by blast
    qed
  qed
qed

lemma twice_exceeds: "hours > 2 * real n \<Longrightarrow> hours > real n"
  by simp

lemma visit_second: "fst (visit now (snd (visit now c))) \<longleftrightarrow> jumps now c"
proof (cases rule: visit_cases [where c = c and now = now])
  case closed
  then show ?thesis by (simp add: jumps_def)
next
  case first
  let ?c = "c\<lparr>escalation_level := 1, escalated_at := Some now\<rparr>"
  have o: "is_open ?c" using first(1) by (simp add: is_open_def)
  show ?thesis
  proof (cases "hours_between now (created_at c) > 2 * real (threshold_spec (priority c))")
    case True
    then have "visit now ?c = (True, ?c\<lparr>escalation_level := 2\<rparr>)"
      using o by (intro visit_second_level) simp_all
    then show ?thesis using first True by (simp add: jumps_def)
  next
    case False
    then have "visit now ?c = (False, ?c)"
      by (intro visit_idle) simp
    then show ?thesis using first False by (simp add: jumps_def)
  qed
next
  case second
  have "visit now (c\<lparr>escalation_level := 2\<rparr>) = (False, c\<lparr>escalation_level := 2\<rparr>)"
    by (intro visit_idle) simp
  then show ?thesis using second by (simp add: jumps_def)
next
  case idle
  have "\<not> jumps now c"
    using idle(2) twice_exceeds [of "threshold_spec (priority c)" "hours_between now (created_at c)"]
    unfolding jumps_def by blast
  then show ?thesis using idle by simp
qed

lemma visit_unflagged: "\<not> fst (visit now c) \<Longrightarrow> snd (visit now c) = c"
  by (cases rule: visit_cases [where c = c and now = now]) simp_all

lemma visit_third:
  "visit now (snd (visit now (snd (visit now c))))
     = (False, snd (visit now (snd (visit now c))))"
proof (cases "jumps now c")
  case True
  then have o: "is_open c" and l: "escalation_level c = 0"
    and h2: "hours_between now (created_at c) > 2 * real (threshold_spec (priority c))"
    unfolding jumps_def by simp_all
  have h1: "hours_between now (created_at c) > real (threshold_spec (priority c))"
    using h2 by (rule twice_exceeds)
  let ?c = "c\<lparr>escalation_level := 1, escalated_at := Some now\<rparr>"
  have v1: "visit now c = (True, ?c)" using o l h1 by (rule visit_first_level)
  have "is_open ?c" using o by (simp add: is_open_def)
  then have v2: "visit now ?c = (True, ?c\<lparr>escalation_level := 2\<rparr>)"
    using h2 by (intro visit_second_level) simp_all
  have v3: "visit now (?c\<lparr>escalation_level := 2\<rparr>) = (False, ?c\<lparr>escalation_level := 2\<rparr>)"
    by (intro visit_idle) simp
  show ?thesis unfolding v1 snd_conv v2 v3 ..
next
  case False
  then have n: "\<not> fst (visit now (snd (visit now c)))" unfolding visit_second .
  then have same: "snd (visit now (snd (visit now c))) = snd (visit now c)"
    by (rule visit_unflagged)
  show ?thesis unfolding same using n same by (metis prod.collapse)
qed

lemma run_count_zero:
  "fst (run_escalation_check now rows) = 0 \<Longrightarrow> snd (run_escalation_check now rows) = rows"
proof -
  assume "fst (run_escalation_check now rows) = 0"
  then have "\<forall>c\<in>set rows. \<not> fst (visit now c)"
    unfolding run_as_visits by (simp add: filter_empty_conv)
  then have "map (\<lambda>c. snd (visit now c)) rows = rows"
    by (simp add: visit_unflagged map_idI)
  then show ?thesis unfolding run_as_visits by simp
qed

lemma second_run_count:
  "fst (run_escalation_check now (snd (run_escalation_check now rows)))
     = length (filter (jumps now) rows)"
  unfolding run_as_visits by (simp add: filter_map comp_def visit_second)

lemma visit_flag: "fst (visit now c) \<longleftrightarrow> is_open c \<and> fst (check_escalation now c)"
  by (simp add: visit_def)

lemma visit_row: "snd (visit now c) = (if is_open c then snd (check_escalation now c) else c)"
  by (simp add: visit_def)

lemma jumps_first:
  assumes "jumps now c"
  shows "check_escalation now c = (True, c\<lparr>escalation_level := 1, escalated_at := Some now\<rparr>)"
proof -
  from assms have op: "is_open c" and l: "escalation_level c = 0"
    and h2: "hours_between now (created_at c) > 2 * real (threshold_spec (priority c))"
    unfolding jumps_def by simp_all
  have h1: "hours_between now (created_at c) > real (threshold_spec (priority c))"
    using h2 by (rule twice_exceeds)
  have "visit now c = (True, c\<lparr>escalation_level := 1, escalated_at := Some now\<rparr>)"
    using op l h1 by (rule visit_first_level)
  then show ?thesis using op by (simp add: visit_def)
qed

lemma visit_twice:
  "snd (visit now (snd (visit now c)))
     = (if jumps now c then c\<lparr>escalation_level := 2, escalated_at := Some now\<rparr>
        else snd (visit now c))"
proof (cases "jumps now c")
  case True
  then have op: "is_open c" and l: "escalation_level c = 0"
    and h2: "hours_between now (created_at c) > 2 * real (threshold_spec (priority c))"
    unfolding jumps_def by simp_all
  have h1: "hours_between now (created_at c) > real (threshold_spec (priority c))"
    using h2 by (rule twice_exceeds)
  let ?c = "c\<lparr>escalation_level := 1, escalated_at := Some now\<rparr>"
  have v1: "visit now c = (True, ?c)" using op l h1 by (rule visit_first_level)
  have "is_open ?c" using op by (simp add: is_open_def)
  then have v2: "visit now ?c = (True, ?c\<lparr>escalation_level := 2\<rparr>)"
    using h2 by (intro visit_second_level) simp_all
  show ?thesis using True by (simp add: v1 v2)
next
  case False
  then have "\<not> fst (visit now (snd (visit now c)))" unfolding visit_second .
  then have "snd (visit now (snd (visit now c))) = snd (visit now c)"
    by (rule visit_unflagged)
  then show ?thesis using False by simp
qed

lemma second_run_rows:
  "snd (run_escalation_check now (snd (run_escalation_check now rows)))
     = map2 (\<lambda>c c1. if jumps now c
                      then c\<lparr>escalation_level := 2, escalated_at := Some now\<rparr>
                      else c1)
         rows (snd (run_escalation_check now rows))"
  unfolding run_as_visits
  by (simp add: zip_map2 zip_same_conv_map comp_def visit_twice)

lemma third_run:
  "run_escalation_check now
     (snd (run_escalation_check now (snd (run_escalation_check now rows))))
     = (0, snd (run_escalation_check now (snd (run_escalation_check now rows))))"
  unfolding run_as_visits by (simp add: filter_map comp_def visit_third)

text \<open>
  Claim C2 says that a second run of the driver at the same instant returns 0 and changes
  no level. A critical complaint at level 0 that has been pending for nine hours is moved
  to level 1 by the first run and to level 2 by the second run, which returns 1.
\<close>

theorem C2_second_run_counterexample:
  "fst (run_escalation_check 32400000000 [sample_complaint]) = 1
   \<and> map escalation_level (snd (run_escalation_check 32400000000 [sample_complaint])) = [1]
   \<and> fst (run_escalation_check 32400000000
            (snd (run_escalation_check 32400000000 [sample_complaint]))) = 1
   \<and> map escalation_level
        (snd (run_escalation_check 32400000000
               (snd (run_escalation_check 32400000000 [sample_complaint])))) = [2]"
proof -
  have o: "is_open sample_complaint" by (simp add: is_open_def sample_complaint_def)
  have v1: "visit 32400000000 sample_complaint
              = (True, sample_complaint\<lparr>escalation_level := 1, escalated_at := Some 32400000000\<rparr>)"
    using o by (intro visit_first_level)
      (simp_all add: sample_complaint_def hours_between_def threshold_spec_def)
  have v2: "visit 32400000000
              (sample_complaint\<lparr>escalation_level := 1, escalated_at := Some 32400000000\<rparr>)
            = (True, sample_complaint\<lparr>escalation_level := 1, escalated_at := Some 32400000000,
                 escalation_level := 2\<rparr>)"
    by (intro visit_second_level)
      (simp_all add: is_open_def sample_complaint_def hours_between_def threshold_spec_def)
  show ?thesis unfolding run_as_visits by (simp add: v1 v2)
qed

text \<open>
  Claim C2, amended. The driver visits the open complaints, applies the escalation check
  to each and counts the checks that escalated. At a fixed instant, the complaints that
  were open, at level 0 and pending for more than twice their threshold before the first
  run are moved to level 1 by the first run, with \<open>escalated_at\<close> set, and to level 2 by
  the second run; the second run changes no other row and nothing else in these, and
  returns their number. So when there is no such complaint the second run returns 0 and
  changes nothing; and a third run always returns 0 and changes nothing.
\<close>

theorem C2_escalation_runs:
  "run_escalation_check now rows
     = (length (filter (\<lambda>c. is_open c \<and> fst (check_escalation now c)) rows),
        map (\<lambda>c. if is_open c then snd (check_escalation now c) else c) rows)
   \<and> (\<forall>c. jumps now c \<longrightarrow>
          check_escalation now c
            = (True, c\<lparr>escalation_level := 1, escalated_at := Some now\<rparr>))
   \<and> fst (run_escalation_check now (snd (run_escalation_check now rows)))
     = length (filter (jumps now) rows)
   \<and> snd (run_escalation_check now (snd (run_escalation_check now rows)))
     = map2 (\<lambda>c c1. if jumps now c
                      then c\<lparr>escalation_level := 2, escalated_at := Some now\<rparr>
                      else c1)
         rows (snd (run_escalation_check now rows))
   \<and> (list_all (\<lambda>c. \<not> jumps now c) rows \<longrightarrow>
        run_escalation_check now (snd (run_escalation_check now rows))
          = (0, snd (run_escalation_check now rows)))
   \<and> run_escalation_check now
        (snd (run_escalation_check now (snd (run_escalation_check now rows))))
       = (0, snd (run_escalation_check now (snd (run_escalation_check now rows))))"
proof -
  have quiet: "list_all (\<lambda>c. \<not> jumps now c) rows \<longrightarrow>
        run_escalation_check now (snd (run_escalation_check now rows))
          = (0, snd (run_escalation_check now rows))"
  proof
    assume "list_all (\<lambda>c. \<not> jumps now c) rows"
    then have "filter (jumps now) rows = []"
      by (simp add: filter_empty_conv list_all_iff)
    then have z: "fst (run_escalation_check now (snd (run_escalation_check now rows))) = 0"
      unfolding second_run_count by simp
    then have "snd (run_escalation_check now (snd (run_escalation_check now rows)))
                 = snd (run_escalation_check now rows)"
      by (rule run_count_zero)
    with z show "run_escalation_check now (snd (run_escalation_check now rows))
          = (0, snd (run_escalation_check now rows))"
      by (metis prod.collapse)
  qed
  have first: "run_escalation_check now rows
     = (length (filter (\<lambda>c. is_open c \<and> fst (check_escalation now c)) rows),
        map (\<lambda>c. if is_open c then snd (check_escalation now c) else c) rows)"
    unfolding run_as_visits visit_flag visit_row ..
  have jump: "\<forall>c. jumps now c \<longrightarrow>
          check_escalation now c
            = (True, c\<lparr>escalation_level := 1, escalated_at := Some now\<rparr>)"
    using jumps_first by blast
  from first jump second_run_count [of now rows] second_run_rows [of now rows] quiet
    third_run [of now rows]
  show ?thesis by blast
qed

theorem C2_escalation_runs_witness:
  "\<not> jumps 18000000000 sample_complaint
   \<and> fst (run_escalation_check 18000000000 [sample_complaint]) = 1
   \<and> run_escalation_check 18000000000 (snd (run_escalation_check 18000000000 [sample_complaint]))
       = (0, snd (run_escalation_check 18000000000 [sample_complaint]))"
proof -
  have j: "\<not> jumps 18000000000 sample_complaint"
    by (simp add: jumps_def sample_complaint_def hours_between_def threshold_spec_def)
  have v1: "visit 18000000000 sample_complaint
              = (True, sample_complaint\<lparr>escalation_level := 1, escalated_at := Some 18000000000\<rparr>)"
    by (intro visit_first_level)
      (simp_all add: is_open_def sample_complaint_def hours_between_def threshold_spec_def)
  have r1: "fst (run_escalation_check 18000000000 [sample_complaint]) = 1"
    unfolding run_as_visits by (simp add: v1)
  have q: "list_all (\<lambda>c. \<not> jumps 18000000000 c) [sample_complaint]"
    using j by simp
  have r2: "run_escalation_check 18000000000
              (snd (run_escalation_check 18000000000 [sample_complaint]))
            = (0, snd (run_escalation_check 18000000000 [sample_complaint]))"
    using C2_escalation_runs [of 18000000000 "[sample_complaint]"] q by blast
  from j r1 r2 show ?thesis by blast
qed

subsection \<open>Severity boost of the duplicate linker\<close>

lemma get_row_updated:
  assumes "get_row i rows = Some r" and "\<And>c. id_c (f c) = id_c c"
  shows "get_row i (update_row i f rows) = Some (f r)"
  using assms(1) unfolding get_row_def update_row_def
  by (induction rows) (auto simp add: assms(2) split: if_splits)

lemma get_row_other:
  assumes "j \<noteq> i" and "\<And>c. id_c (f c) = id_c c"
  shows "get_row i (update_row j f rows) = get_row i rows"
  using assms(1) unfolding get_row_def update_row_def
  by (induction rows) (auto simp add: assms(2))

lemma get_row_id: "get_row i rows = Some r \<Longrightarrow> id_c r = i \<and> r \<in> set rows"
  unfolding get_row_def by (induction rows) (auto split: if_splits)

lemma update_row_absent:
  "i \<notin> set (map id_c rows) \<Longrightarrow> update_row i f rows = rows"
  unfolding update_row_def by (induction rows) auto

lemma count_after_update:
  assumes "distinct (map id_c rows)" and "get_row i rows = Some d"
  shows "length (filter Q (update_row i f rows)) + (if Q d then 1 else 0)
           = length (filter Q rows) + (if Q (f d) then 1 else 0)"
  using assms
proof (induction rows)
  case Nil
  then show ?case by (simp add: get_row_def)
next
  case (Cons c rows)
  show ?case
  proof (cases "id_c c = i")
    case True
    then have d: "d = c" using Cons.prems(2) by (simp add: get_row_def)
    have "i \<notin> set (map id_c rows)" using Cons.prems(1) True by auto
    then have "update_row i f rows = rows" by (rule update_row_absent)
    then have "update_row i f (c # rows) = f c # rows"
      using True by (simp add: update_row_def)
    then show ?thesis unfolding d by simp
  next
    case False
    then have g: "get_row i rows = Some d" using Cons.prems(2) by (simp add: get_row_def)
    have dd: "distinct (map id_c rows)" using Cons.prems(1) by simp
    have u: "update_row i f (c # rows) = c # update_row i f rows"
      using False by (simp add: update_row_def)
    show ?thesis unfolding u using Cons.IH [OF dd g] by simp
  qed
qed

lemma linked_count:
  assumes "distinct (map id_c rows)" and "get_row dup rows = Some d"
  shows "count_duplicates_of orig (update_row dup (link orig) rows)
           = (if duplicate_of_id d = Some orig then count_duplicates_of orig rows
              else count_duplicates_of orig rows + 1)"
  using count_after_update [OF assms, of "\<lambda>c. duplicate_of_id c = Some orig" "link orig"]
  unfolding count_duplicates_of_def by (simp add: link_def split: if_splits)

lemma link_keeps_id: "id_c (link orig c) = id_c c"
  by (simp add: link_def)

lemma link_keeps_score: "severity_score (link orig c) = severity_score c"
  by (simp add: link_def)

lemma link_inline:
  "(\<lambda>c. c\<lparr>is_duplicate := True, duplicate_of_id := Some orig\<rparr>) = link orig"
  by (simp add: link_def fun_eq_iff)

lemma original_after_link:
  "dup \<noteq> orig \<Longrightarrow> get_row orig (update_row dup (link orig) rows) = get_row orig rows"
  by (rule get_row_other) (simp_all add: link_keeps_id)

lemma mark_as_duplicate_unscored:
  assumes "dup \<noteq> orig" and "get_row orig rows = Some r" and "severity_score r = None"
    and "0 < count_duplicates_of orig (if autoflush then update_row dup (link orig) rows else rows)"
  shows "mark_as_duplicate autoflush rows dup orig = Inl TypeError"
  using assms original_after_link [OF assms(1), of rows]
  unfolding mark_as_duplicate_def link_inline Let_def by simp

lemma mark_as_duplicate_scored:
  assumes "dup \<noteq> orig" and "get_row orig rows = Some r" and "severity_score r = Some s"
  shows "mark_as_duplicate autoflush rows dup orig
           = Inr (True,
                  if 0 < count_duplicates_of orig
                           (if autoflush then update_row dup (link orig) rows else rows)
                  then update_row orig
                         (\<lambda>c. c\<lparr>severity_score :=
                                   Some (boosted s
                                     (count_duplicates_of orig
                                        (if autoflush then update_row dup (link orig) rows
                                         else rows)))\<rparr>)
                         (update_row dup (link orig) rows)
                  else update_row dup (link orig) rows)"
  using assms original_after_link [OF assms(1), of rows]
  unfolding mark_as_duplicate_def link_inline Let_def boosted_def by simp

lemma mark_as_duplicate_absent:
  assumes "dup \<noteq> orig" and "get_row orig rows = None"
  shows "mark_as_duplicate autoflush rows dup orig = Inr (True, update_row dup (link orig) rows)"
  using assms original_after_link [OF assms(1), of rows]
  unfolding mark_as_duplicate_def link_inline Let_def by simp

lemma mark_as_duplicate_uncounted:
  assumes "dup \<noteq> orig"
    and "count_duplicates_of orig (if autoflush then update_row dup (link orig) rows else rows) = 0"
  shows "mark_as_duplicate autoflush rows dup orig = Inr (True, update_row dup (link orig) rows)"
  using assms unfolding mark_as_duplicate_def link_inline Let_def by simp

lemma boosted_step: "boosted s k \<le> s + 3 / 10"
  by (simp add: boosted_def min_def)

lemma boosted_clamped: "s \<le> 1 \<Longrightarrow> s \<le> boosted s k \<and> boosted s k \<le> 1"
  by (simp add: boosted_def min_def)

text \<open>
  Claim C1, amended. For two different rows of a table with distinct identifiers, the
  original with a score \<open>s\<close>, the linker returns \<open>True\<close>, writes the link on the
  duplicate, and sets the severity of the original to \<open>min (s + min (k * 0.1) 0.3) 1\<close>
  when \<open>k > 0\<close> and leaves it when \<open>k = 0\<close>, where \<open>k\<close> is the count the query returns:
  the number \<open>n\<close> of rows that pointed at the original before the call when the query
  does not see the pending link, and \<open>n + 1\<close> when it does (autoflush) and the duplicate
  did not point at the original already. One call raises the severity by at most 0.3 and
  not above 1.0 when it was at most 1.0. Nothing bounds the sum of the boosts of
  successive calls but that clamp.
\<close>

theorem C1_duplicate_boost:
  assumes "distinct (map id_c rows)"
    and "get_row orig rows = Some r" and "get_row dup rows = Some d" and "dup \<noteq> orig"
    and "severity_score r = Some s"
  shows "\<exists>rows'. mark_as_duplicate autoflush rows dup orig = Inr (True, rows')
    \<and> get_row dup rows' = Some (link orig d)
    \<and> get_row orig rows'
        = Some (r\<lparr>severity_score :=
                     Some (boosted s
                       (if autoflush \<and> duplicate_of_id d \<noteq> Some orig
                        then count_duplicates_of orig rows + 1
                        else count_duplicates_of orig rows))\<rparr>)
    \<and> boosted s
          (if autoflush \<and> duplicate_of_id d \<noteq> Some orig
           then count_duplicates_of orig rows + 1
           else count_duplicates_of orig rows) \<le> s + 0.3
    \<and> (s \<le> 1 \<longrightarrow>
          boosted s
            (if autoflush \<and> duplicate_of_id d \<noteq> Some orig
             then count_duplicates_of orig rows + 1
             else count_duplicates_of orig rows) \<le> 1)"
proof -
  let ?L = "update_row dup (link orig) rows"
  let ?seen = "count_duplicates_of orig (if autoflush then ?L else rows)"
  let ?k = "if autoflush \<and> duplicate_of_id d \<noteq> Some orig
            then count_duplicates_of orig rows + 1 else count_duplicates_of orig rows"
  let ?g = "\<lambda>c :: nullable_complaint. c\<lparr>severity_score := Some (boosted s ?seen)\<rparr>"
  let ?R = "if 0 < ?seen then update_row orig ?g ?L else ?L"
  have m: "mark_as_duplicate autoflush rows dup orig = Inr (True, ?R)"
    using assms(4) assms(2) assms(5) by (rule mark_as_duplicate_scored)
  have seen: "?seen = ?k"
    using linked_count [OF assms(1) assms(3), of orig] by simp
  have gid: "id_c (?g c) = id_c c" for c by simp
  have dupL: "get_row dup ?L = Some (link orig d)"
    using assms(3) link_keeps_id by (rule get_row_updated)
  have origL: "get_row orig ?L = Some r"
    using original_after_link [OF assms(4), of rows] assms(2) by simp
  have ne: "orig \<noteq> dup" using assms(4) by simp
  have "get_row dup (update_row orig ?g ?L) = get_row dup ?L"
    by (rule get_row_other [OF ne]) simp
  then have d1: "get_row dup (update_row orig ?g ?L) = Some (link orig d)"
    using dupL by simp
  have d: "get_row dup ?R = Some (link orig d)"
    using d1 dupL by (cases "0 < ?seen") simp_all
  have o1: "get_row orig (update_row orig ?g ?L) = Some (?g r)"
    using origL gid by (rule get_row_updated)
  have o0: "?seen = 0 \<Longrightarrow> ?g r = r"
    using assms(5) by (simp add: boosted_def)
  have at_orig: "get_row orig ?R = Some (?g r)"
  proof (cases "0 < ?seen")
    case True
    then show ?thesis using o1 by simp
  next
    case False
    then have z: "?seen = 0" by simp
    show ?thesis using False origL o0 [OF z] by simp
  qed
  have at_orig': "get_row orig ?R = Some (r\<lparr>severity_score := Some (boosted s ?k)\<rparr>)"
    unfolding at_orig by (simp only: seen)
  have b1: "boosted s ?k \<le> s + 3 / 10"
    by (rule boosted_step)
  have b2: "s \<le> 1 \<longrightarrow> boosted s ?k \<le> 1"
    using boosted_clamped [of s ?k] by blast
  from m d at_orig' b1 b2 show ?thesis by (intro exI [of _ ?R]) simp
qed

lemmas link_eval = mark_as_duplicate_def update_row_def count_duplicates_of_def get_row_def
  report_def unscored_def link_def Let_def final_score_def

text \<open>
  Claim C1 says that the boosts of successive link calls on one original never add up to
  more than 0.3. Linking the reports 2 to 5 onto the report 1 of severity 0.1 raises it to
  0.7 when the query does not see the pending link (boosts 0, 0.1, 0.2, 0.3), and linking
  the reports 2 to 4 already does when it sees it (boosts 0.1, 0.2, 0.3).
\<close>

theorem C1_cumulative_boost_counterexample:
  "final_score 1 (Inr dup_rows) = Some 0.1
   \<and> final_score 1 (link_all False dup_rows [2, 3, 4, 5] 1) = Some 0.7
   \<and> final_score 1 (link_all True dup_rows [2, 3, 4] 1) = Some 0.7
   \<and> (0.7 :: real) - 0.1 > 0.3"
  by (simp add: dup_rows_def link_eval)

theorem C1_duplicate_boost_witness:
  "distinct (map id_c linked_rows)
   \<and> get_row 1 linked_rows = Some (report 1) \<and> get_row 3 linked_rows = Some (report 3)
   \<and> severity_score (report 1) = Some 0.1
   \<and> count_duplicates_of 1 linked_rows = 1
   \<and> final_score 1 (map_sum id snd (mark_as_duplicate False linked_rows 3 1)) = Some 0.2
   \<and> final_score 1 (map_sum id snd (mark_as_duplicate True linked_rows 3 1)) = Some 0.3"
proof -
  have a: "distinct (map id_c linked_rows)" "get_row 1 linked_rows = Some (report 1)"
    "get_row 3 linked_rows = Some (report 3)" "(3::nat) \<noteq> 1"
    "severity_score (report 1) = Some 0.1"
    by (simp_all add: linked_rows_def link_eval)
  have n: "count_duplicates_of 1 linked_rows = 1"
    by (simp add: linked_rows_def link_eval)
  have u: "duplicate_of_id (report 3) \<noteq> Some 1"
    by (simp add: report_def)
  have v: "final_score 1 (map_sum id snd (mark_as_duplicate False linked_rows 3 1)) = Some 0.2"
    "final_score 1 (map_sum id snd (mark_as_duplicate True linked_rows 3 1)) = Some 0.3"
    by (simp_all add: linked_rows_def link_eval)
  show ?thesis
    using C1_duplicate_boost [OF a, of False] C1_duplicate_boost [OF a, of True] a n u v
    by blast
qed

subsection \<open>Failure of the duplicate linker\<close>

text \<open>
  Claim C8 says that the \<open>False\<close> of a self-reference is the only failure of the linker
  and that it never raises. On an original without a score the addition raises: with the
  pending link counted (autoflush) already at the first duplicate, and without it as soon
  as a duplicate was linked before.
\<close>

theorem C8_null_score_counterexample:
  "mark_as_duplicate True [unscored 1, report 2] 2 1 = Inl TypeError
   \<and> mark_as_duplicate False [unscored 1, link 1 (report 2), report 3] 3 1 = Inl TypeError"
  by (simp add: link_eval)

text \<open>
  Claim C8, amended. Linking a complaint to itself returns \<open>False\<close> and leaves every row
  of the table as it was, in particular the complaint's duplicate flag, its duplicate
  reference and its severity score; \<open>False\<close> is returned for no other pair of
  arguments. The linker raises exactly when the two complaints differ, the count query
  returns a positive count and the original has no severity score; so it never raises on
  a table in which every score is set.
\<close>

theorem C8_self_link_rejected:
  "mark_as_duplicate autoflush rows a a = Inr (False, rows)
   \<and> ((\<exists>rows'. mark_as_duplicate autoflush rows a b = Inr (False, rows')) \<longleftrightarrow> a = b)
   \<and> (mark_as_duplicate autoflush rows a b = Inl TypeError \<longleftrightarrow>
        a \<noteq> b
        \<and> 0 < count_duplicates_of b (if autoflush then update_row a (link b) rows else rows)
        \<and> (\<exists>r. get_row b rows = Some r \<and> severity_score r = None))
   \<and> (list_all (\<lambda>r. severity_score r \<noteq> None) rows \<longrightarrow>
        (\<exists>flag rows'. mark_as_duplicate autoflush rows a b = Inr (flag, rows')))"
proof -
  let ?seen = "count_duplicates_of b (if autoflush then update_row a (link b) rows else rows)"
  have self: "mark_as_duplicate autoflush rows a a = Inr (False, rows)"
    by (simp add: mark_as_duplicate_def)
  have shape: "(a = b \<and> mark_as_duplicate autoflush rows a b = Inr (False, rows))
      \<or> (a \<noteq> b \<and> 0 < ?seen \<and> (\<exists>r. get_row b rows = Some r \<and> severity_score r = None)
          \<and> mark_as_duplicate autoflush rows a b = Inl TypeError)
      \<or> (a \<noteq> b \<and> \<not> (0 < ?seen \<and> (\<exists>r. get_row b rows = Some r \<and> severity_score r = None))
          \<and> (\<exists>rows'. mark_as_duplicate autoflush rows a b = Inr (True, rows')))"
  proof (cases "a = b")
    case True
    then show ?thesis using self by simp
  next
    case ne: False
    show ?thesis
    proof (cases "0 < ?seen")
      case False
      then have "?seen = 0" by simp
      then have "mark_as_duplicate autoflush rows a b = Inr (True, update_row a (link b) rows)"
        using ne by (intro mark_as_duplicate_uncounted) simp_all
      then show ?thesis using ne False by simp
    next
      case pos: True
      show ?thesis
      proof (cases "get_row b rows")
        case None
        then have "mark_as_duplicate autoflush rows a b = Inr (True, update_row a (link b) rows)"
          using ne by (intro mark_as_duplicate_absent) simp_all
        then show ?thesis using ne None by simp
      next
        case (Some r)
        show ?thesis
        proof (cases "severity_score r")
          case None
          have "mark_as_duplicate autoflush rows a b = Inl TypeError"
            using ne Some None pos by (rule mark_as_duplicate_unscored)
          then show ?thesis using ne pos Some None by simp
        next
          case (Some s)
          have "\<exists>rows'. mark_as_duplicate autoflush rows a b = Inr (True, rows')"
            using mark_as_duplicate_scored [OF ne \<open>get_row b rows = Some r\<close> Some, of autoflush]
            by blast
          then show ?thesis using ne \<open>get_row b rows = Some r\<close> Some by auto
        qed
      qed
    qed
  qed
  have false_iff: "(\<exists>rows'. mark_as_duplicate autoflush rows a b = Inr (False, rows')) \<longleftrightarrow> a = b"
    using shape by auto
  have raise_iff: "mark_as_duplicate autoflush rows a b = Inl TypeError \<longleftrightarrow>
        a \<noteq> b \<and> 0 < ?seen \<and> (\<exists>r. get_row b rows = Some r \<and> severity_score r = None)"
    using shape by auto
  have scored: "list_all (\<lambda>r. severity_score r \<noteq> None) rows \<longrightarrow>
        (\<exists>flag rows'. mark_as_duplicate autoflush rows a b = Inr (flag, rows'))"
  proof
    assume all: "list_all (\<lambda>r. severity_score r \<noteq> None) rows"
    have "\<not> (\<exists>r. get_row b rows = Some r \<and> severity_score r = None)"
      using all get_row_id [of b rows] by (auto simp add: list_all_iff)
    then show "\<exists>flag rows'. mark_as_duplicate autoflush rows a b = Inr (flag, rows')"
      using shape by auto
  qed
  from self false_iff raise_iff scored show ?thesis by blast
qed

theorem C8_self_link_rejected_witness:
  "list_all (\<lambda>r. severity_score r \<noteq> None) linked_rows
   \<and> mark_as_duplicate True linked_rows 1 1 = Inr (False, linked_rows)
   \<and> (\<exists>flag rows'. mark_as_duplicate True linked_rows 3 1 = Inr (flag, rows'))
   \<and> mark_as_duplicate True linked_rows 3 1 \<noteq> Inl TypeError"
proof -
  have s: "list_all (\<lambda>r. severity_score r \<noteq> None) linked_rows"
    by (simp add: linked_rows_def report_def link_def del: not_None_eq)
  show ?thesis
    using C8_self_link_rejected [of True linked_rows 1 1]
          C8_self_link_rejected [of True linked_rows 3 1] s
    by auto
qed

subsection \<open>Hotspots\<close>

lemma increment_keys:
  "map fst (increment k d) = (if k \<in> set (map fst d) then map fst d else map fst d @ [k])"
  by (induction d) (force split: if_splits)+

lemma increment_map_of:
  "map_of (increment k d) = (map_of d)(k \<mapsto> (case map_of d k of None \<Rightarrow> 1 | Some n \<Rightarrow> n + 1))"
  by (induction d) (auto simp add: fun_eq_iff)

lemma tally_snoc: "tally (xs @ [x]) = increment x (tally xs)"
  by (simp add: tally_def)

lemma tally_keys: "distinct (map fst (tally xs)) \<and> set (map fst (tally xs)) = set xs"
proof (induction xs rule: rev_induct)
  case Nil
  then show ?case by (simp add: tally_def)
next
  case (snoc x xs)
  then show ?case unfolding tally_snoc increment_keys by auto
qed

lemma tally_map_of:
  "map_of (tally xs) k = (if k \<in> set xs then Some (count_list xs k) else None)"
proof (induction xs rule: rev_induct)
  case Nil
  then show ?case by (simp add: tally_def)
next
  case (snoc x xs)
  then show ?case unfolding tally_snoc increment_map_of
    by (auto simp add: count_list_0_iff)
qed

lemma tally_entry:
  "(k, n) \<in> set (tally xs) \<longleftrightarrow> k \<in> set xs \<and> n = count_list xs k"
proof -
  have "(k, n) \<in> set (tally xs) \<longleftrightarrow> map_of (tally xs) k = Some n"
    using tally_keys [of xs] by simp
  then show ?thesis unfolding tally_map_of by auto
qed

lemma summary_snoc: "summary key (ms @ [c]) = accumulate c (summary key ms)"
  by (simp add: summary_def)

lemma summary_fields:
  "lat (summary key ms) = fst key \<and> lng (summary key ms) = snd key
   \<and> count (summary key ms) = length ms
   \<and> avg_severity (summary key ms) = sum_list (map severity_score ms)
   \<and> cl_categories (summary key ms) = tally (map category ms)"
proof (induction ms rule: rev_induct)
  case Nil
  then show ?case by (simp add: summary_def new_cluster_def tally_def)
next
  case (snoc c ms)
  then show ?case unfolding summary_snoc by (simp add: accumulate_def tally_snoc)
qed

lemma add_to_clusters_keys:
  "map fst (add_to_clusters c m)
     = (if grid_key c \<in> set (map fst m) then map fst m else map fst m @ [grid_key c])"
  by (induction m) (force split: if_splits)+

lemma add_to_clusters_map_of:
  "map_of (add_to_clusters c m) k
     = (if k = grid_key c
        then Some (accumulate c (case map_of m (grid_key c) of
                                   None \<Rightarrow> new_cluster (grid_key c) | Some cl \<Rightarrow> cl))
        else map_of m k)"
proof (induction m arbitrary: k)
  case Nil
  then show ?case by simp
next
  case (Cons e m)
  obtain key cl where e: "e = (key, cl)" by (cases e)
  show ?case
  proof (cases "key = grid_key c")
    case True
    then show ?thesis unfolding e by simp
  next
    case False
    then show ?thesis unfolding e using Cons.IH by simp
  qed
qed

lemma build_clusters_snoc:
  "build_clusters (cs @ [c]) = add_to_clusters c (build_clusters cs)"
  by (simp add: build_clusters_def)

lemma cell_members_snoc:
  "cell_members (cs @ [c]) k
     = (if grid_key c = k then cell_members cs k @ [c] else cell_members cs k)"
  by (simp add: cell_members_def)

lemma cell_members_empty: "cell_members cs k = [] \<longleftrightarrow> k \<notin> grid_key ` set cs"
  by (auto simp add: cell_members_def filter_empty_conv)

lemma build_clusters_keys:
  "distinct (map fst (build_clusters cs)) \<and> set (map fst (build_clusters cs)) = grid_key ` set cs"
proof (induction cs rule: rev_induct)
  case Nil
  then show ?case by (simp add: build_clusters_def)
next
  case (snoc c cs)
  then show ?case unfolding build_clusters_snoc add_to_clusters_keys by auto
qed

lemma build_clusters_map_of:
  "map_of (build_clusters cs) k
     = (if k \<in> grid_key ` set cs then Some (summary k (cell_members cs k)) else None)"
proof (induction cs arbitrary: k rule: rev_induct)
  case Nil
  then show ?case by (simp add: build_clusters_def)
next
  case (snoc c cs)
  show ?case
  proof (cases "k = grid_key c")
    case True
    show ?thesis
    proof (cases "k \<in> grid_key ` set cs")
      case seen: True
      then have "map_of (build_clusters cs) (grid_key c) = Some (summary k (cell_members cs k))"
        using snoc.IH [of k] True by simp
      then show ?thesis
        unfolding build_clusters_snoc
        using True by (simp add: add_to_clusters_map_of cell_members_snoc summary_snoc)
    next
      case new: False
      then have e: "cell_members cs k = []" unfolding cell_members_empty .
      have "map_of (build_clusters cs) (grid_key c) = None"
        using snoc.IH [of k] True new by simp
      then show ?thesis
        unfolding build_clusters_snoc
        using True e by (simp add: add_to_clusters_map_of cell_members_snoc summary_def)
    qed
  next
    case False
    then show ?thesis
      unfolding build_clusters_snoc
      using snoc.IH [of k] by (auto simp add: add_to_clusters_map_of cell_members_snoc)
  qed
qed

lemma build_clusters_entry:
  "(k, cl) \<in> set (build_clusters cs)
     \<longleftrightarrow> k \<in> grid_key ` set cs \<and> cl = summary k (cell_members cs k)"
proof -
  have "(k, cl) \<in> set (build_clusters cs) \<longleftrightarrow> map_of (build_clusters cs) k = Some cl"
    using build_clusters_keys [of cs] by simp
  then show ?thesis unfolding build_clusters_map_of by auto
qed

lemma top_category_of_tally:
  assumes "xs \<noteq> []"
  shows "\<exists>k. (case tally xs of [] \<Rightarrow> None | a # b \<Rightarrow> Some (fst (max_by_value a b))) = Some k
             \<and> k \<in> set xs \<and> (\<forall>k'. count_list xs k' \<le> count_list xs k)"
proof -
  have "set (map fst (tally xs)) \<noteq> {}" using tally_keys [of xs] assms by simp
  then obtain a b where t: "tally xs = a # b" by (cases "tally xs") auto
  obtain k n where r: "max_by_value a b = (k, n)" by (cases "max_by_value a b")
  have "(k, n) \<in> set (tally xs)" using max_by_value_mem [of a b] unfolding r t by simp
  then have k: "k \<in> set xs" and n: "n = count_list xs k" unfolding tally_entry by simp_all
  have "count_list xs k' \<le> count_list xs k" for k'
  proof (cases "k' \<in> set xs")
    case True
    then have "(k', count_list xs k') \<in> set (a # b)" unfolding t [symmetric] tally_entry by simp
    then have "snd (k', count_list xs k') \<le> snd (max_by_value a b)" by (rule max_by_value_ge)
    then show ?thesis unfolding r n by simp
  next
    case False
    then show ?thesis by (simp add: count_list_0_iff [THEN iffD2])
  qed
  then show ?thesis using k by (simp add: t r)
qed

lemma finalize_summary:
  assumes "ms \<noteq> []"
  shows "hotspot_cell (finalize (summary key ms)) = key"
    and "h_count (finalize (summary key ms)) = length ms"
    and "h_avg_severity (finalize (summary key ms))
           = round_ndigits (sum_list (map severity_score ms) / real (length ms)) 2"
    and "\<exists>k. h_top_category (finalize (summary key ms)) = Some k
             \<and> k \<in> category ` set ms
             \<and> (\<forall>k'. count_list (map category ms) k' \<le> count_list (map category ms) k)"
proof -
  show "hotspot_cell (finalize (summary key ms)) = key"
    by (simp add: hotspot_cell_def finalize_def summary_fields)
  show "h_count (finalize (summary key ms)) = length ms"
    by (simp add: finalize_def summary_fields)
  show "h_avg_severity (finalize (summary key ms))
           = round_ndigits (sum_list (map severity_score ms) / real (length ms)) 2"
    by (simp add: finalize_def summary_fields)
  have "map category ms \<noteq> []" using assms by simp
  then show "\<exists>k. h_top_category (finalize (summary key ms)) = Some k
             \<and> k \<in> category ` set ms
             \<and> (\<forall>k'. count_list (map category ms) k' \<le> count_list (map category ms) k)"
    using top_category_of_tally [of "map category ms"]
    by (simp add: finalize_def summary_fields)
qed

lemma hotspot_cells_unsorted:
  "map hotspot_cell (map (\<lambda>(key, cl). finalize cl) (build_clusters cs))
     = map fst (build_clusters cs)"
proof -
  have "hotspot_cell (finalize cl) = key" if "(key, cl) \<in> set (build_clusters cs)" for key cl
  proof -
    from that have k: "key \<in> grid_key ` set cs" and c: "cl = summary key (cell_members cs key)"
      unfolding build_clusters_entry by simp_all
    have "cell_members cs key \<noteq> []" using k unfolding cell_members_empty by simp
    then show ?thesis unfolding c by (rule finalize_summary(1))
  qed
  then show ?thesis by (auto simp add: case_prod_beta)
qed

lemma all_hotspots_set:
  "set (all_hotspots cs) = (\<lambda>(key, cl). finalize cl) ` set (build_clusters cs)"
  by (simp add: all_hotspots_def)

lemma distinct_map_sort_key:
  "distinct (map g (sort_key f xs)) = distinct (map g xs)"
  by (simp add: distinct_map)

lemma set_map_sort_key:
  "set (map g (sort_key f xs)) = set (map g xs)"
  by simp

lemma all_hotspots_cells:
  "distinct (map hotspot_cell (all_hotspots cs))
   \<and> set (map hotspot_cell (all_hotspots cs)) = grid_key ` set cs"
proof -
  let ?u = "map (\<lambda>(key, cl). finalize cl) (build_clusters cs)"
  have d: "distinct (map hotspot_cell ?u)" and s: "set (map hotspot_cell ?u) = grid_key ` set cs"
    unfolding hotspot_cells_unsorted using build_clusters_keys [of cs] by simp_all
  have "distinct (map hotspot_cell (all_hotspots cs))"
    using d unfolding all_hotspots_def by (simp only: distinct_map_sort_key)
  moreover have "set (map hotspot_cell (all_hotspots cs)) = grid_key ` set cs"
    using s unfolding all_hotspots_def by (simp only: set_map_sort_key)
  ultimately show ?thesis by simp
qed

lemma all_hotspots_descending:
  "sorted_wrt (\<lambda>a b. h_count b \<le> h_count a) (all_hotspots cs)"
proof -
  have "sorted (map (\<lambda>h. - int (h_count h)) (all_hotspots cs))"
    unfolding all_hotspots_def by (rule sorted_sort_key)
  then show ?thesis unfolding sorted_map by (rule sorted_wrt_mono_rel [rotated]) simp
qed

lemma all_hotspots_entry:
  assumes "h \<in> set (all_hotspots cs)"
  shows "cell_members cs (hotspot_cell h) \<noteq> []"
    and "h_count h = length (cell_members cs (hotspot_cell h))"
    and "h_avg_severity h
           = round_ndigits (sum_list (map severity_score (cell_members cs (hotspot_cell h)))
                              / real (length (cell_members cs (hotspot_cell h)))) 2"
    and "\<exists>k. h_top_category h = Some k
             \<and> k \<in> category ` set (cell_members cs (hotspot_cell h))
             \<and> (\<forall>k'. count_list (map category (cell_members cs (hotspot_cell h))) k'
                        \<le> count_list (map category (cell_members cs (hotspot_cell h))) k)"
proof -
  obtain key cl where e: "(key, cl) \<in> set (build_clusters cs)" and h: "h = finalize cl"
    using assms unfolding all_hotspots_set by auto
  from e have k: "key \<in> grid_key ` set cs" and c: "cl = summary key (cell_members cs key)"
    unfolding build_clusters_entry by simp_all
  have ne: "cell_members cs key \<noteq> []" using k unfolding cell_members_empty by simp
  have cell: "hotspot_cell h = key" unfolding h c using ne by (rule finalize_summary(1))
  show "cell_members cs (hotspot_cell h) \<noteq> []" unfolding cell by (rule ne)
  show "h_count h = length (cell_members cs (hotspot_cell h))"
    unfolding cell unfolding h c using ne by (rule finalize_summary(2))
  show "h_avg_severity h
           = round_ndigits (sum_list (map severity_score (cell_members cs (hotspot_cell h)))
                              / real (length (cell_members cs (hotspot_cell h)))) 2"
    unfolding cell unfolding h c using ne by (rule finalize_summary(3))
  show "\<exists>k. h_top_category h = Some k
             \<and> k \<in> category ` set (cell_members cs (hotspot_cell h))
             \<and> (\<forall>k'. count_list (map category (cell_members cs (hotspot_cell h))) k'
                        \<le> count_list (map category (cell_members cs (hotspot_cell h))) k)"
    unfolding cell unfolding h c using ne by (rule finalize_summary(4))
qed

lemma near_cells:
  "grid_key near_a = (28.61, 77.21)" "grid_key near_b = (28.61, 77.21)"
  by (simp_all add: grid_key_def grid_size_def near_a_def near_b_def sample_complaint_def
        py_round_def Let_def)

lemma near_hotspots:
  "all_hotspots [near_a, near_b]
     = [\<lparr>h_lat = 28.61, h_lng = 77.21, h_count = 2, h_avg_severity = 0.65,
         h_top_category = Some ''roads''\<rparr>]"
proof -
  have b: "build_clusters [near_a, near_b]
             = [((28.61, 77.21),
                 \<lparr>lat = 28.61, lng = 77.21, count = 2, avg_severity = 1.3,
                  cl_categories = [(''roads'', 2)]\<rparr>)]"
    by (simp add: build_clusters_def near_cells accumulate_def new_cluster_def)
       (simp add: near_a_def near_b_def sample_complaint_def)
  show ?thesis
    unfolding all_hotspots_def b
    by (simp add: finalize_def round_ndigits_def py_round_def)
qed

text \<open>
  Claim C9. The endpoint returns the first 50 hotspots of the clusterer, at most 50, in
  descending order of count. The clusterer puts each complaint into the cell
  \<open>(round (lat / 0.01) * 0.01, round (lng / 0.01) * 0.01)\<close> and returns one hotspot for
  each cell that holds a complaint, in descending order of count. The hotspot of a cell
  carries the number of the cell's complaints, the mean of their severity scores (rounded
  to two decimals, as the source does) and a category that no other category outnumbers
  in the cell. The complaints at (28.61390, 77.20899) and (28.61395, 77.20901) fall into
  the same cell and give one hotspot of count 2.
\<close>

theorem C9_hotspots:
  "get_hotspots now days cat rows = take 50 (all_hotspots (hotspot_query now days cat rows))
   \<and> length (get_hotspots now days cat rows) \<le> 50
   \<and> sorted_wrt (\<lambda>a b. h_count b \<le> h_count a) (get_hotspots now days cat rows)
   \<and> sorted_wrt (\<lambda>a b. h_count b \<le> h_count a) (all_hotspots cs)
   \<and> distinct (map hotspot_cell (all_hotspots cs))
   \<and> set (map hotspot_cell (all_hotspots cs)) = grid_key ` set cs
   \<and> (\<forall>h\<in>set (all_hotspots cs).
         cell_members cs (hotspot_cell h) \<noteq> []
         \<and> h_count h = length (cell_members cs (hotspot_cell h))
         \<and> h_avg_severity h
             = round_ndigits (sum_list (map severity_score (cell_members cs (hotspot_cell h)))
                                / real (length (cell_members cs (hotspot_cell h)))) 2
         \<and> (\<exists>k. h_top_category h = Some k
                 \<and> k \<in> category ` set (cell_members cs (hotspot_cell h))
                 \<and> (\<forall>k'. count_list (map category (cell_members cs (hotspot_cell h))) k'
                            \<le> count_list (map category (cell_members cs (hotspot_cell h))) k)))
   \<and> grid_key c = (of_int (py_round (latitude c / 0.01)) * 0.01,
                    of_int (py_round (longitude c / 0.01)) * 0.01)
   \<and> grid_key near_a = grid_key near_b
   \<and> map h_count (all_hotspots [near_a, near_b]) = [2]"
proof -
  have g: "get_hotspots now days cat rows
             = take 50 (all_hotspots (hotspot_query now days cat rows))"
    by (simp add: get_hotspots_def)
  have l: "length (get_hotspots now days cat rows) \<le> 50" unfolding g by simp
  have s1: "sorted_wrt (\<lambda>a b. h_count b \<le> h_count a) (get_hotspots now days cat rows)"
    unfolding g using all_hotspots_descending by (rule sorted_wrt_take)
  have e: "\<forall>h\<in>set (all_hotspots cs).
         cell_members cs (hotspot_cell h) \<noteq> []
         \<and> h_count h = length (cell_members cs (hotspot_cell h))
         \<and> h_avg_severity h
             = round_ndigits (sum_list (map severity_score (cell_members cs (hotspot_cell h)))
                                / real (length (cell_members cs (hotspot_cell h)))) 2
         \<and> (\<exists>k. h_top_category h = Some k
                 \<and> k \<in> category ` set (cell_members cs (hotspot_cell h))
                 \<and> (\<forall>k'. count_list (map category (cell_members cs (hotspot_cell h))) k'
                            \<le> count_list (map category (cell_members cs (hotspot_cell h))) k))"
    using all_hotspots_entry [of _ cs] by blast
  have k: "grid_key c = (of_int (py_round (latitude c / 0.01)) * 0.01,
                    of_int (py_round (longitude c / 0.01)) * 0.01)"
    by (simp add: grid_key_def grid_size_def)
  have x: "grid_key near_a = grid_key near_b" unfolding near_cells ..
  have y: "map h_count (all_hotspots [near_a, near_b]) = [2]" unfolding near_hotspots by simp
  from g l s1 all_hotspots_descending [of cs] all_hotspots_cells [of cs] e k x y
  show ?thesis by blast
qed

theorem C9_hotspots_witness:
  "all_hotspots [near_a, near_b]
     = [\<lparr>h_lat = 28.61, h_lng = 77.21, h_count = 2, h_avg_severity = 0.65,
         h_top_category = Some ''roads''\<rparr>]
   \<and> cell_members [near_a, near_b] (28.61, 77.21) = [near_a, near_b]
   \<and> set (map hotspot_cell (all_hotspots [near_a, near_b])) = {(28.61, 77.21)}"
proof -
  have m: "cell_members [near_a, near_b] (28.61, 77.21) = [near_a, near_b]"
    by (simp add: cell_members_def near_cells)
  show ?thesis
    using C9_hotspots [of 0 30 None "[]" "[near_a, near_b]" near_a] m
    by (simp add: near_hotspots near_cells hotspot_cell_def)
qed

end
